theory Spec2Isabelle
  imports
    Main
    "HOL-Library.Word"
    "HOL-Library.AList"
    "HOL-Library.Char_ord"
    "HOL-Library.List_Lexorder"
    "HOL-Library.Multiset"
begin

chapter \<open>The synchronisation core of the hub: SyncId, TrieNode, SyncEngine\<close>

section \<open>Bytes, hexadecimal strings and JavaScript number strings\<close>

type_synonym byte = "8 word"
type_synonym bytes = "byte list"

text \<open>
  BLAKE3 with \<open>dkLen: 20\<close> comes from the package \<open>@noble/hashes\<close>. Every function
  that hashes takes it as the parameter \<open>H\<close>; nothing is assumed about it except, where
  a statement says so, that the digest has twenty bytes.
\<close>

type_synonym hashfn = "bytes \<Rightarrow> bytes"


definition hexdigit :: "nat \<Rightarrow> char" where
  "hexdigit n = ''0123456789abcdef'' ! n"

definition hexval :: "char \<Rightarrow> nat option" where
  "hexval c = map_of
     [(CHR ''0'', 0), (CHR ''1'', 1), (CHR ''2'', 2), (CHR ''3'', 3), (CHR ''4'', 4),
      (CHR ''5'', 5), (CHR ''6'', 6), (CHR ''7'', 7), (CHR ''8'', 8), (CHR ''9'', 9),
      (CHR ''a'', 10), (CHR ''b'', 11), (CHR ''c'', 12), (CHR ''d'', 13), (CHR ''e'', 14),
      (CHR ''f'', 15), (CHR ''A'', 10), (CHR ''B'', 11), (CHR ''C'', 12), (CHR ''D'', 13),
      (CHR ''E'', 14), (CHR ''F'', 15)] c"

text \<open>\<open>Buffer.toString('hex')\<close>: two lowercase digits for every byte.\<close>

fun toHex :: "bytes \<Rightarrow> string" where
  "toHex [] = []"
| "toHex (b # bs) = hexdigit (unat b div 16) # hexdigit (unat b mod 16) # toHex bs"

text \<open>\<open>Buffer.from(s, 'hex')\<close>: decodes pairs of digits and stops at the first pair
  that is not hexadecimal (or at a single trailing character).\<close>

fun fromHex :: "string \<Rightarrow> bytes" where
  "fromHex (a # b # rest) =
     (case (hexval a, hexval b) of
        (Some x, Some y) \<Rightarrow> of_nat (16 * x + y) # fromHex rest
      | _ \<Rightarrow> [])"
| "fromHex _ = []"

text \<open>\<open>Number.prototype.toString()\<close> for a non-negative integer: its decimal digits.\<close>

fun decimal :: "nat \<Rightarrow> string" where
  "decimal n = (if n < 10 then [hexdigit n] else decimal (n div 10) @ [hexdigit (n mod 10)])"

declare decimal.simps [simp del]

section \<open>Errors\<close>

text \<open>
  The trie throws plain strings (\<open>throw 'Key length exceeded'\<close>) and, in one place, a
  \<open>HubError\<close>; the engine returns \<open>HubError\<close>s inside results. A \<open>HubError\<close> carries
  an error code and a message. Node's buffer writes throw a \<open>RangeError\<close>.
\<close>

datatype HubError = HubError (errCode: string) (message: string)

datatype error = Thrown string | Hub HubError | RangeError


section \<open>TrieNode\<close>

definition TIMESTAMP_LENGTH :: nat where
  "TIMESTAMP_LENGTH = 10"


text \<open>
  The fields \<open>_hash\<close>, \<open>_items\<close>, \<open>_children\<close> and \<open>_key\<close>. The children are a
  JavaScript \<open>Map\<close>, which iterates in insertion order: an association list, where
  \<open>Map.set\<close> replaces in place or appends (\<open>AList.update\<close>), \<open>Map.get\<close> is
  \<open>map_of\<close> and \<open>Map.delete\<close> is \<open>AList.delete\<close>. A key of the map is what
  \<open>Uint8Array.at\<close> returned: a byte, or \<open>undefined\<close> (\<open>None\<close>) when the index was
  past the array.
\<close>

datatype TrieNode =
  TrieNode (hash: string) (items: int) (children: "(byte option \<times> TrieNode) list")
    (key: "bytes option")

definition new_TrieNode :: TrieNode where
  "new_TrieNode = TrieNode [] 0 [] None"

definition isLeaf :: "TrieNode \<Rightarrow> bool" where
  "isLeaf n = (length (children n) = 0)"

definition node_value :: "TrieNode \<Rightarrow> bytes option" where
  "node_value n = (if isLeaf n then key n else None)"

definition set_hash :: "string \<Rightarrow> TrieNode \<Rightarrow> TrieNode" where
  "set_hash h n = TrieNode h (items n) (children n) (key n)"

definition set_items :: "int \<Rightarrow> TrieNode \<Rightarrow> TrieNode" where
  "set_items i n = TrieNode (hash n) i (children n) (key n)"

definition set_children :: "(byte option \<times> TrieNode) list \<Rightarrow> TrieNode \<Rightarrow> TrieNode" where
  "set_children cs n = TrieNode (hash n) (items n) cs (key n)"

definition set_key :: "bytes option \<Rightarrow> TrieNode \<Rightarrow> TrieNode" where
  "set_key k n = TrieNode (hash n) (items n) (children n) k"

text \<open>\<open>Uint8Array.at\<close> for an index that is not negative.\<close>

definition byte_at :: "bytes \<Rightarrow> nat \<Rightarrow> byte option" where
  "byte_at k i = (if i < length k then Some (k ! i) else None)"

text \<open>
  Modelled from the spec: \<open>bytesCompare\<close> belongs to the package \<open>@farcaster/utils\<close>,
  which is not among the sources; the trie only tests its result against 0, which the
  spec reads as "a key equal to the input". It is the lexicographic comparison of the
  two byte arrays.
\<close>

fun bytesCompare :: "bytes \<Rightarrow> bytes \<Rightarrow> int" where
  "bytesCompare [] [] = 0"
| "bytesCompare [] (b # bs) = -1"
| "bytesCompare (a # as) [] = 1"
| "bytesCompare (a # as) (b # bs) =
     (if a < b then -1 else if a > b then 1 else bytesCompare as bs)"

text \<open>
  Modelled from the spec: \<open>blake3Truncate160\<close> belongs to \<open>~/utils/crypto\<close>, which is
  not among the sources. A leaf's hash is BLAKE3-160 of its key, and an absent key
  hashes the empty string (\<open>EMPTY_HASH\<close>).
\<close>

definition blake3Truncate160 :: "hashfn \<Rightarrow> bytes option \<Rightarrow> bytes" where
  "blake3Truncate160 H v = H (case v of None \<Rightarrow> [] | Some k \<Rightarrow> k)"


text \<open>\<open>_updateHash\<close>: a leaf hashes its value, an inner node hashes the decoded hashes
  of its children in the order of the map.\<close>

definition updateHash :: "hashfn \<Rightarrow> TrieNode \<Rightarrow> TrieNode" where
  "updateHash H n =
     (let digest =
        (if isLeaf n then blake3Truncate160 H (node_value n)
         else H (concat (map (\<lambda>(c, child). fromHex (hash child)) (children n))))
      in set_hash (toHex digest) n)"

definition setKeyValue :: "hashfn \<Rightarrow> bytes option \<Rightarrow> TrieNode \<Rightarrow> TrieNode" where
  "setKeyValue H k n = updateHash H (set_key k n)"

text \<open>
  \<open>[...this._children.entries()].sort()\<close> has no comparator, so JavaScript compares
  the entries as strings: an entry \<open>[char, node]\<close> becomes the decimal digits of
  \<open>char\<close> (nothing for \<open>undefined\<close>) followed by \<open>,[object Object]\<close>, and strings
  are ordered by code units. The sort is stable.
\<close>

definition entry_string :: "byte option \<times> TrieNode \<Rightarrow> string" where
  "entry_string e =
     (case fst e of None \<Rightarrow> [] | Some c \<Rightarrow> decimal (unat c)) @ '',[object Object]''"

definition js_sort :: "(byte option \<times> TrieNode) list \<Rightarrow> (byte option \<times> TrieNode) list" where
  "js_sort cs = sort_key entry_string cs"

definition addChild :: "byte option \<Rightarrow> TrieNode \<Rightarrow> TrieNode" where
  "addChild char n = set_children (js_sort (AList.update char new_TrieNode (children n))) n"

definition Key_length_exceeded :: error where
  "Key_length_exceeded = Thrown ''Key length exceeded''"

text \<open>
  Every operation of the trie returns its result (or what it threw) together with the
  node as the call left it: an exception leaves the changes made before it in place.

  \<open>insert_new\<close> is \<open>new TrieNode().insert(key, index)\<close>, the call that
  \<open>_splitLeafNode\<close> makes on the child it has just created; it is written out apart so
  that \<open>insert\<close> below recurses on nodes of the trie only. Lemma
  \<open>insert_new_is_insert\<close> shows that it is \<open>insert\<close> on a new node.
\<close>

function insert_new :: "hashfn \<Rightarrow> bytes \<Rightarrow> nat \<Rightarrow> (error + bool) \<times> TrieNode" where
  "insert_new H k current_index =
     (if current_index \<ge> length k then (Inl Key_length_exceeded, new_TrieNode)
      else if current_index \<ge> TIMESTAMP_LENGTH then
        (Inr True, set_items (items new_TrieNode + 1) (setKeyValue H (Some k) new_TrieNode))
      else
        (let char = Some (k ! current_index);
             n2 = addChild char new_TrieNode
         in case insert_new H k (current_index + 1) of
              (r, child') \<Rightarrow>
                (let n3 = set_children (AList.update char child' (children n2)) n2 in
                 case r of
                   Inl e \<Rightarrow> (Inl e, n3)
                 | Inr success \<Rightarrow>
                     if success then (Inr True, updateHash H (set_items (items n3 + 1) n3))
                     else (Inr False, n3))))"
  by pat_completeness auto
termination
  by (relation "measure (\<lambda>(H, k, i). length k - i)") auto

declare insert_new.simps [simp del]

text \<open>
  \<open>_splitLeafNode\<close>: the error it threw, if any, and the node. The new child is filed
  under \<open>this._key.at(current_index)\<close>; when the insertion into it throws, the node
  keeps its key and has the new child.
\<close>

definition splitLeafNode :: "hashfn \<Rightarrow> nat \<Rightarrow> TrieNode \<Rightarrow> error option \<times> TrieNode" where
  "splitLeafNode H current_index n =
     (case key n of
        None \<Rightarrow>
          (Some (Hub (HubError ''bad_request'' ''Cannot split a leaf node without a key and value'')), n)
      | Some k \<Rightarrow>
          (let newChildChar = byte_at k current_index;
               n1 = addChild newChildChar n
           in case insert_new H k (current_index + 1) of
                (r, child') \<Rightarrow>
                  (let n2 = set_children (AList.update newChildChar child' (children n1)) n1 in
                   case r of
                     Inl e \<Rightarrow> (Some e, n2)
                   | Inr success \<Rightarrow> (None, setKeyValue H None n2))))"

fun node_count :: "TrieNode \<Rightarrow> nat" where
  "node_count (TrieNode h i cs k) = Suc (sum_list (map (\<lambda>(c, child). node_count child) cs))"

function insert_node :: "hashfn \<Rightarrow> bytes \<Rightarrow> nat \<Rightarrow> TrieNode \<Rightarrow> (error + bool) \<times> TrieNode" where
  "insert_node H k current_index n =
     (if current_index \<ge> length k then (Inl Key_length_exceeded, n)
      else
        let char = Some (k ! current_index) in
        if current_index \<ge> TIMESTAMP_LENGTH \<and> isLeaf n \<and> key n = None then
          (Inr True, set_items (items n + 1) (setKeyValue H (Some k) n))
        else if current_index \<ge> TIMESTAMP_LENGTH \<and> isLeaf n
                \<and> bytesCompare (case key n of None \<Rightarrow> [] | Some k' \<Rightarrow> k') k = 0 then
          (Inr False, n)
        else
          (case (if current_index \<ge> TIMESTAMP_LENGTH \<and> isLeaf n
                 then splitLeafNode H current_index n else (None, n)) of
             (Some e, n1) \<Rightarrow> (Inl e, n1)
           | (None, n1) \<Rightarrow>
               (let n2 = (if map_of (children n1) char = None then addChild char n1 else n1) in
                case map_of (children n2) char of
                  None \<Rightarrow> (Inr False, n2)
                | Some child \<Rightarrow>
                    (case insert_node H k (current_index + 1) child of
                       (r, child') \<Rightarrow>
                         (let n3 = set_children (AList.update char child' (children n2)) n2 in
                          case r of
                            Inl e \<Rightarrow> (Inl e, n3)
                          | Inr success \<Rightarrow>
                              if success then (Inr True, updateHash H (set_items (items n3 + 1) n3))
                              else (Inr False, n3))))))"
  by pat_completeness auto

subsection \<open>Field updates, and the termination of \<open>insert\<close>\<close>

lemma hash_set [simp]:
  "hash (set_hash h n) = h" "hash (set_items i n) = hash n"
  "hash (set_children cs n) = hash n" "hash (set_key k n) = hash n"
  by (simp_all add: set_hash_def set_items_def set_children_def set_key_def)

lemma items_set [simp]:
  "items (set_hash h n) = items n" "items (set_items i n) = i"
  "items (set_children cs n) = items n" "items (set_key k n) = items n"
  by (simp_all add: set_hash_def set_items_def set_children_def set_key_def)

lemma children_set [simp]:
  "children (set_hash h n) = children n" "children (set_items i n) = children n"
  "children (set_children cs n) = cs" "children (set_key k n) = children n"
  by (simp_all add: set_hash_def set_items_def set_children_def set_key_def)

lemma key_set [simp]:
  "key (set_hash h n) = key n" "key (set_items i n) = key n"
  "key (set_children cs n) = key n" "key (set_key k n) = k"
  by (simp_all add: set_hash_def set_items_def set_children_def set_key_def)

lemma updateHash_fields [simp]:
  "items (updateHash H n) = items n" "children (updateHash H n) = children n"
  "key (updateHash H n) = key n"
  by (simp_all add: updateHash_def Let_def)

lemma setKeyValue_fields [simp]:
  "items (setKeyValue H k n) = items n" "children (setKeyValue H k n) = children n"
  "key (setKeyValue H k n) = k"
  by (simp_all add: setKeyValue_def)

lemma new_TrieNode_fields [simp]:
  "hash new_TrieNode = []" "items new_TrieNode = 0" "children new_TrieNode = []"
  "key new_TrieNode = None"
  by (simp_all add: new_TrieNode_def)

lemma set_js_sort [simp]: "set (js_sort cs) = set cs"
  by (simp add: js_sort_def)

lemma in_set_update:
  "(c', ch) \<in> set (AList.update c v cs) \<Longrightarrow> ch = v \<or> (c', ch) \<in> set cs"
  by (induction cs) (auto split: if_splits)

lemma in_children_addChild:
  "(c', ch) \<in> set (children (addChild c n)) \<Longrightarrow> ch = new_TrieNode \<or> (c', ch) \<in> set (children n)"
  by (auto simp: addChild_def dest: in_set_update)

lemma node_count_child:
  "(c, ch) \<in> set (children n) \<Longrightarrow> node_count ch < node_count n"
proof (cases n)
  case (TrieNode h i cs k)
  assume "(c, ch) \<in> set (children n)"
  then have "(c, ch) \<in> set cs" using TrieNode by simp
  then have "node_count ch \<le> sum_list (map (\<lambda>(c, child). node_count child) cs)"
    by (induction cs) auto
  then show ?thesis using TrieNode by simp
qed

lemma node_count_pos: "0 < node_count n"
  by (cases n) simp

lemma node_count_leaf: "children n = [] \<Longrightarrow> node_count n = 1"
  by (cases n) simp

lemma insert_new_deep:
  "TIMESTAMP_LENGTH \<le> i \<Longrightarrow>
   insert_new H k i =
     (if i \<ge> length k then (Inl Key_length_exceeded, new_TrieNode)
      else (Inr True, set_items (items new_TrieNode + 1) (setKeyValue H (Some k) new_TrieNode)))"
  by (subst insert_new.simps) simp

lemma in_children_split:
  assumes "splitLeafNode H i n = (r, n1)" and "isLeaf n" and "TIMESTAMP_LENGTH \<le> i"
    and "(c, ch) \<in> set (children n1)"
  shows "node_count ch = 1"
  using assms
  by (auto simp: splitLeafNode_def insert_new_deep isLeaf_def Let_def node_count_leaf
        split: option.splits if_splits dest!: in_set_update in_children_addChild)

termination insert_node
proof (relation "measures [\<lambda>(H, k, i, n). node_count n, \<lambda>(H, k, i, n). length k - i]", goal_cases)
  case 1
  then show ?case by simp
next
  case (2 H k i n char sr n1 n2 child)
  have mem: "(char, child) \<in> set (children n2)"
    using 2 by (auto dest: map_of_SomeD)
  have "node_count child \<le> node_count n"
  proof (cases "TIMESTAMP_LENGTH \<le> i \<and> isLeaf n")
    case True
    then have sp: "splitLeafNode H i n = (None, n1)" using 2 by (simp split: if_splits)
    have "ch = new_TrieNode \<or> (c, ch) \<in> set (children n1)" if "(c, ch) \<in> set (children n2)" for c ch
      using that 2 by (auto dest: in_children_addChild split: if_splits)
    with mem have "child = new_TrieNode \<or> (char, child) \<in> set (children n1)" by blast
    then have "node_count child = 1"
      using in_children_split [OF sp] True by (auto simp: node_count_leaf)
    then show ?thesis using node_count_pos [of n] by simp
  next
    case False
    then have "n1 = n" using 2 by (auto split: if_splits)
    then have "child = new_TrieNode \<or> (char, child) \<in> set (children n)"
      using mem 2 by (auto dest: in_children_addChild split: if_splits)
    then show ?thesis
      using node_count_pos [of n] by (auto simp: node_count_leaf dest: node_count_child less_imp_le)
  qed
  moreover have "i < length k" using 2 by simp
  ultimately show ?case by auto
qed

declare insert_node.simps [simp del]

subsection \<open>delete, exists, getSnapshot, getNode, getAllValues\<close>



function exists_node :: "bytes \<Rightarrow> nat \<Rightarrow> TrieNode \<Rightarrow> (error + bool) \<times> TrieNode" where
  "exists_node k current_index n =
     (if isLeaf n \<and> bytesCompare (case key n of None \<Rightarrow> [] | Some k' \<Rightarrow> k') k = 0
      then (Inr True, n)
      else if current_index \<ge> length k then (Inl (Thrown ''Key length exceeded3''), n)
      else
        let char = Some (k ! current_index) in
        case map_of (children n) char of
          None \<Rightarrow> (Inr False, n)
        | Some child \<Rightarrow>
            (case exists_node k (current_index + 1) child of
               (r, child') \<Rightarrow>
                 (case r of Inl e \<Rightarrow> Inl e | Inr b \<Rightarrow> Inr (b \<or> False),
                  set_children (AList.update char child' (children n)) n)))"
  by pat_completeness auto
termination
  by (relation "measure (\<lambda>(k, i, n). node_count n)")
     (auto dest!: map_of_SomeD node_count_child)

declare exists_node.simps [simp del]

record TrieSnapshot =
  prefix :: bytes
  excludedHashes :: "string list"
  numMessages :: int

text \<open>\<open>_excludedHash\<close>; the character is \<open>undefined\<close> when \<open>prefix.at\<close> read past the
  prefix.\<close>

definition excludedHash :: "hashfn \<Rightarrow> byte option \<Rightarrow> TrieNode \<Rightarrow> int \<times> string" where
  "excludedHash H char n =
     (let excluded = filter (\<lambda>(c, child). c \<noteq> char) (children n)
      in (sum_list (map (\<lambda>(c, child). items child) excluded),
          toHex (H (concat (map (\<lambda>(c, child). fromHex (hash child)) excluded)))))"

function getSnapshot :: "hashfn \<Rightarrow> bytes \<Rightarrow> nat \<Rightarrow> TrieNode \<Rightarrow> TrieSnapshot \<times> TrieNode" where
  "getSnapshot H pfx current_index n =
     (let char = byte_at pfx current_index in
      if int current_index = int (length pfx) - 1 then
        (let (its, h) = excludedHash H char n
         in (\<lparr>prefix = pfx, excludedHashes = [h], numMessages = its\<rparr>, n))
      else
        (case map_of (children n) char of
           None \<Rightarrow>
             (let (its, h) = excludedHash H char n
              in (\<lparr>prefix = take (current_index + 1) pfx, excludedHashes = [h],
                   numMessages = its\<rparr>, n))
         | Some child \<Rightarrow>
             (case getSnapshot H pfx (current_index + 1) child of
                (innerSnapshot, child') \<Rightarrow>
                  (let n1 = set_children (AList.update char child' (children n)) n;
                       (its, h) = excludedHash H char n1
                   in (\<lparr>prefix = prefix innerSnapshot,
                        excludedHashes = h # excludedHashes innerSnapshot,
                        numMessages = its + numMessages innerSnapshot\<rparr>, n1)))))"
  by pat_completeness auto
termination
  by (relation "measure (\<lambda>(H, p, i, n). node_count n)")
     (auto dest!: map_of_SomeD node_count_child split: option.splits)

declare getSnapshot.simps [simp del]

fun getNode :: "bytes \<Rightarrow> TrieNode \<Rightarrow> TrieNode option \<times> TrieNode" where
  "getNode [] n = (Some n, n)"
| "getNode (char # rest) n =
     (case map_of (children n) (Some char) of
        None \<Rightarrow> (None, n)
      | Some child \<Rightarrow>
          (case getNode rest child of
             (r, child') \<Rightarrow> (r, set_children (AList.update (Some char) child' (children n)) n)))"

fun getAllValues :: "TrieNode \<Rightarrow> bytes list \<times> TrieNode" where
  "getAllValues (TrieNode h i cs k) =
     (if length cs = 0 then ((case k of None \<Rightarrow> [] | Some kv \<Rightarrow> [kv]), TrieNode h i cs k)
      else
        (let rs = map (\<lambda>(c, child). (c, getAllValues child)) cs
         in (concat (map (\<lambda>(c, r). fst r) rs), TrieNode h i (map (\<lambda>(c, r). (c, snd r)) rs) k)))"

section \<open>SyncId\<close>






text \<open>
  The number of bytes of the white space character at the head of a text, 0 when the
  text does not begin with one. The white space of \<open>parseInt\<close> is TAB, LF, VT, FF, CR,
  SPACE, U+00A0, U+1680, U+2000 to U+200A, U+2028, U+2029, U+202F, U+205F, U+3000 and
  U+FEFF, each in its one UTF-8 encoding. Bytes that are not valid UTF-8 become
  replacement characters in the text, which are no white space either.
\<close>

definition whitespace_length :: "bytes \<Rightarrow> nat" where
  "whitespace_length s =
     (case s of
        [] \<Rightarrow> 0
      | b # r \<Rightarrow>
          if b \<in> {9, 10, 11, 12, 13, 32} then 1
          else if b = 194 then (case r of x # r' \<Rightarrow> if x = 160 then 2 else 0 | [] \<Rightarrow> 0)
          else
            (case r of
               x # y # r' \<Rightarrow>
                 if b = 225 \<and> x = 154 \<and> y = 128 then 3
                 else if b = 226 \<and> x = 128
                         \<and> ((128 \<le> y \<and> y \<le> 138) \<or> y = 168 \<or> y = 169 \<or> y = 175) then 3
                 else if b = 226 \<and> x = 129 \<and> y = 159 then 3
                 else if b = 227 \<and> x = 128 \<and> y = 128 then 3
                 else if b = 239 \<and> x = 187 \<and> y = 191 then 3
                 else 0
             | _ \<Rightarrow> 0))"

lemma whitespace_length_Nil [simp]: "whitespace_length [] = 0"
  by (simp add: whitespace_length_def)









section \<open>MerkleTrie\<close>







section \<open>SyncEngine\<close>

definition HASHES_PER_FETCH :: int where
  "HASHES_PER_FETCH = 50"

text \<open>
  Of a message the engine reads \<open>data?.fid\<close>. \<open>NodeMetadata\<close> is the type that
  \<open>merkleTrie.ts\<close> exports (prefix, number of messages, hash, and an optional map of
  children); \<open>TrieNodeMetadataResponse\<close> is its protobuf form.
\<close>

datatype MessageData = MessageData (md_type: nat) (md_fid: nat) (md_timestamp: nat)

datatype Message = Message (msg_data: "MessageData option") (msg_hash: bytes)

datatype NodeMetadata =
  NodeMetadata (nm_prefix: bytes) (nm_numMessages: int) (nm_hash: string)
    (nm_children: "(byte \<times> NodeMetadata) list option")

datatype TrieNodeMetadataResponse =
  TrieNodeMetadataResponse (rsp_prefix: bytes) (rsp_numMessages: nat) (rsp_hash: string)
    (rsp_children: "TrieNodeMetadataResponse list")

text \<open>
  The peer (\<open>HubRpcClient\<close>) and the local store (\<open>Engine\<close>) are outside the core. Each
  of their operations is a function of the request and of the state of the world \<open>'w\<close>,
  returning its result and the next state; the local trie is read in that state. The
  calls made are recorded in order.
\<close>

datatype 'ev call =
    GetAllSyncIdsByPrefix bytes
  | GetSyncMetadataByPrefix bytes
  | GetIdRegistryEvent nat
  | GetAllSignerMessagesByFid nat
  | MergeIdRegistryEvent 'ev
  | MergeMessages "Message list"
  | MergeMessage Message

record ('w, 'ev) env =
  getAllSyncIdsByPrefix :: "bytes \<Rightarrow> 'w \<Rightarrow> (HubError + bytes list) \<times> 'w"
  getSyncMetadataByPrefix :: "bytes \<Rightarrow> 'w \<Rightarrow> (HubError + TrieNodeMetadataResponse) \<times> 'w"
  getIdRegistryEvent :: "nat \<Rightarrow> 'w \<Rightarrow> (HubError + 'ev) \<times> 'w"
  getAllSignerMessagesByFid :: "nat \<Rightarrow> 'w \<Rightarrow> (HubError + Message list) \<times> 'w"
  mergeIdRegistryEvent :: "'ev \<Rightarrow> 'w \<Rightarrow> (HubError + unit) \<times> 'w"
  mergeMessages :: "Message list \<Rightarrow> 'w \<Rightarrow> (HubError + unit) list \<times> 'w"
  mergeMessage :: "Message \<Rightarrow> 'w \<Rightarrow> (HubError + unit) \<times> 'w"
  getTrieNodeMetadata :: "bytes \<Rightarrow> 'w \<Rightarrow> NodeMetadata option"

definition fromNodeMetadataResponse :: "TrieNodeMetadataResponse \<Rightarrow> NodeMetadata" where
  "fromNodeMetadataResponse response =
     NodeMetadata (rsp_prefix response) (int (rsp_numMessages response)) (rsp_hash response)
       (Some (foldl
          (\<lambda>m child.
             if length (rsp_prefix child) > 0
             then AList.update (last (rsp_prefix child))
                    (NodeMetadata (rsp_prefix child) (int (rsp_numMessages child)) (rsp_hash child) None) m
             else m)
          [] (rsp_children response)))"

text \<open>\<open>ourNode?.children?.get(theirChildChar)?.hash\<close>: undefined when any part is absent.\<close>

definition our_child_hash :: "NodeMetadata option \<Rightarrow> byte \<Rightarrow> string option" where
  "our_child_hash ourNode c =
     (case ourNode of
        None \<Rightarrow> None
      | Some ours \<Rightarrow>
          (case nm_children ours of
             None \<Rightarrow> None
           | Some cs \<Rightarrow> (case map_of cs c of None \<Rightarrow> None | Some child \<Rightarrow> Some (nm_hash child))))"

text \<open>
  \<open>fetchMissingHashesByNode\<close> and \<open>fetchMissingHashesByPrefix\<close> call each other for as
  long as the peer keeps answering with large nodes, so the recursion is bounded by fuel:
  \<open>None\<close> is "no answer within this depth". \<open>fetchChildren\<close> is the loop over the
  peer's children.
\<close>

function (sequential) fetchMissingHashesByNode ::
    "nat \<Rightarrow> ('w, 'ev) env \<Rightarrow> NodeMetadata \<Rightarrow> NodeMetadata option \<Rightarrow> 'w \<times> 'ev call list
       \<Rightarrow> (bytes list \<times> 'w \<times> 'ev call list) option"
  and fetchChildren ::
    "nat \<Rightarrow> ('w, 'ev) env \<Rightarrow> (byte \<times> NodeMetadata) list \<Rightarrow> NodeMetadata option
       \<Rightarrow> 'w \<times> 'ev call list \<Rightarrow> (bytes list \<times> 'w \<times> 'ev call list) option"
  and fetchMissingHashesByPrefix ::
    "nat \<Rightarrow> ('w, 'ev) env \<Rightarrow> bytes \<Rightarrow> 'w \<times> 'ev call list
       \<Rightarrow> (bytes list \<times> 'w \<times> 'ev call list) option"
  where
  "fetchMissingHashesByNode 0 rpc theirNode ourNode st = None"
| "fetchMissingHashesByNode (Suc fuel) rpc theirNode ourNode st =
     (case st of (w, log) \<Rightarrow>
      if nm_numMessages theirNode \<le> HASHES_PER_FETCH then
        (case getAllSyncIdsByPrefix rpc (nm_prefix theirNode) w of
           (result, w') \<Rightarrow>
             Some ((case result of Inr ids \<Rightarrow> ids | Inl err \<Rightarrow> []),
                   w', log @ [GetAllSyncIdsByPrefix (nm_prefix theirNode)]))
      else
        (case nm_children theirNode of
           None \<Rightarrow> Some ([], w, log)
         | Some cs \<Rightarrow> fetchChildren fuel rpc cs ourNode (w, log)))"
| "fetchChildren fuel rpc [] ourNode st = Some ([], st)"
| "fetchChildren fuel rpc (entry # rest) ourNode st =
     (case entry of (theirChildChar, theirChild) \<Rightarrow>
      if our_child_hash ourNode theirChildChar \<noteq> Some (nm_hash theirChild) then
        (case fetchMissingHashesByPrefix fuel rpc (nm_prefix theirChild) st of
           None \<Rightarrow> None
         | Some (ids, st') \<Rightarrow>
             (case fetchChildren fuel rpc rest ourNode st' of
                None \<Rightarrow> None
              | Some (ids', st'') \<Rightarrow> Some (ids @ ids', st'')))
      else fetchChildren fuel rpc rest ourNode st)"
| "fetchMissingHashesByPrefix 0 rpc pfx st = None"
| "fetchMissingHashesByPrefix (Suc fuel) rpc pfx st =
     (case st of (w, log) \<Rightarrow>
      let ourNode = getTrieNodeMetadata rpc pfx w in
      case getSyncMetadataByPrefix rpc pfx w of
        (theirNodeResult, w') \<Rightarrow>
          (case theirNodeResult of
             Inl err \<Rightarrow> Some ([], w', log @ [GetSyncMetadataByPrefix pfx])
           | Inr theirNode \<Rightarrow>
               fetchMissingHashesByNode fuel rpc (fromNodeMetadataResponse theirNode) ourNode
                 (w', log @ [GetSyncMetadataByPrefix pfx])))"
  by pat_completeness auto
termination
  by (relation "measures
        [\<lambda>x. case x of
                Inl (fuel, rest) \<Rightarrow> 2 * fuel
              | Inr (Inl (fuel, rest)) \<Rightarrow> 2 * fuel + 1
              | Inr (Inr (fuel, rest)) \<Rightarrow> 2 * fuel,
         \<lambda>x. case x of
                Inl (fuel, rest) \<Rightarrow> 0
              | Inr (Inl (fuel, rpc, cs, rest)) \<Rightarrow> length cs
              | Inr (Inr (fuel, rest)) \<Rightarrow> 0]")
     auto

text \<open>
  Modelled from the spec: the class \<open>HubError\<close> belongs to \<open>@farcaster/utils\<close>, which is
  not among the sources. \<open>new HubError(code, e)\<close> on an error \<open>e\<close> makes an error of
  that code which keeps the message of \<open>e\<close>.
\<close>

definition HubError_from :: "string \<Rightarrow> HubError \<Rightarrow> HubError" where
  "HubError_from code e = HubError code (message e)"

definition isErr :: "'e + 'a \<Rightarrow> bool" where
  "isErr r = (case r of Inl e \<Rightarrow> True | Inr v \<Rightarrow> False)"

definition syncUserAndRetryMessage ::
    "('w, 'ev) env \<Rightarrow> Message \<Rightarrow> 'w \<times> 'ev call list \<Rightarrow> (HubError + unit) \<times> 'w \<times> 'ev call list" where
  "syncUserAndRetryMessage rpc msg st =
     (case st of (w, log) \<Rightarrow>
      let fid = (case msg_data msg of None \<Rightarrow> 0 | Some d \<Rightarrow> md_fid d) in
      if fid = 0 then (Inl (HubError ''bad_request.invalid_param'' ''Invalid fid''), w, log)
      else
        (case getIdRegistryEvent rpc fid w of
           (custodyEventResult, w1) \<Rightarrow>
             (let log1 = log @ [GetIdRegistryEvent fid] in
              case custodyEventResult of
                Inl e \<Rightarrow>
                  (Inl (HubError ''unavailable.network_failure'' ''Failed to fetch custody event''),
                   w1, log1)
              | Inr custodyEvent \<Rightarrow>
                  (case mergeIdRegistryEvent rpc custodyEvent w1 of
                     (custodyResult, w2) \<Rightarrow>
                       (let log2 = log1 @ [MergeIdRegistryEvent custodyEvent] in
                        if isErr custodyResult then
                          (Inl (HubError ''unavailable.storage_failure'' ''Failed to merge custody event''),
                           w2, log2)
                        else
                          (case getAllSignerMessagesByFid rpc fid w2 of
                             (signerMessagesResult, w3) \<Rightarrow>
                               (let log3 = log2 @ [GetAllSignerMessagesByFid fid] in
                                case signerMessagesResult of
                                  Inl e \<Rightarrow>
                                    (Inl (HubError ''unavailable.network_failure''
                                            ''Failed to fetch signer messages''), w3, log3)
                                | Inr messages \<Rightarrow>
                                    (case mergeMessages rpc messages w3 of
                                       (results, w4) \<Rightarrow>
                                         (let log4 = log3 @ [MergeMessages messages] in
                                          if list_all isErr results then
                                            (Inl (HubError ''unavailable.storage_failure''
                                                    ''Failed to merge signer messages''), w4, log4)
                                          else
                                            (case mergeMessage rpc msg w4 of
                                               (retry, w5) \<Rightarrow>
                                                 ((case retry of
                                                     Inl e \<Rightarrow> Inl (HubError_from ''unavailable.storage_failure'' e)
                                                   | Inr u \<Rightarrow> Inr u),
                                                  w5, log4 @ [MergeMessage msg])))))))))))"

section \<open>Properties of the trie operations\<close>

subsection \<open>The reading methods leave the node as it is\<close>

lemma set_children_same [simp]: "set_children (children n) n = n"
  by (cases n) (simp add: set_children_def)

lemma update_child_same:
  "map_of (children n) c = Some ch \<Longrightarrow> set_children (AList.update c ch (children n)) n = n"
  by (simp add: AList.update_triv)

lemma exists_node_frame: "snd (exists_node k i n) = n"
proof (induction k i n rule: exists_node.induct)
  case (1 k i n)
  show ?case
  proof (cases "(isLeaf n \<and> bytesCompare (case key n of None \<Rightarrow> [] | Some k' \<Rightarrow> k') k = 0) \<or> length k \<le> i")
    case True
    then show ?thesis by (subst exists_node.simps) auto
  next
    case False
    show ?thesis
    proof (cases "map_of (children n) (Some (k ! i))")
      case None
      then show ?thesis using False by (subst exists_node.simps) (auto simp: Let_def)
    next
      case (Some child)
      have "snd (exists_node k (i + 1) child) = child"
        using 1 [OF _ _ refl Some] False by auto
      then show ?thesis using False Some
        by (subst exists_node.simps) (auto simp: Let_def update_child_same split: prod.splits)
    qed
  qed
qed

lemma getSnapshot_frame: "snd (getSnapshot H p i n) = n"
proof (induction H p i n rule: getSnapshot.induct)
  case (1 H p i n)
  show ?case
  proof (cases "int i = int (length p) - 1")
    case True
    then show ?thesis by (subst getSnapshot.simps) (auto simp: Let_def split: prod.splits)
  next
    case False
    show ?thesis
    proof (cases "map_of (children n) (byte_at p i)")
      case None
      then show ?thesis using False
        by (subst getSnapshot.simps) (auto simp: Let_def split: prod.splits)
    next
      case (Some child)
      have "snd (getSnapshot H p (i + 1) child) = child"
        using 1 [OF refl False Some] .
      then show ?thesis using False Some
        by (subst getSnapshot.simps)
           (auto simp: Let_def update_child_same split: prod.splits)
    qed
  qed
qed

lemma getNode_frame: "snd (getNode p n) = n"
proof (induction p n rule: getNode.induct)
  case (1 n)
  then show ?case by simp
next
  case (2 char rest n)
  show ?case
  proof (cases "map_of (children n) (Some char)")
    case None
    then show ?thesis by simp
  next
    case (Some child)
    then show ?thesis using 2 [OF Some] by (auto simp: update_child_same split: prod.splits)
  qed
qed

lemma getAllValues_frame: "snd (getAllValues n) = n"
proof (induction n rule: getAllValues.induct)
  case (1 h i cs k)
  show ?case
  proof (cases "length cs = 0")
    case True
    then show ?thesis by simp
  next
    case False
    have "map (\<lambda>(c, r). (c, snd r)) (map (\<lambda>(c, child). (c, getAllValues child)) cs) = cs"
    proof -
      have "(\<lambda>(c, r). (c, snd r)) ((\<lambda>(c, child). (c, getAllValues child)) x) = x"
        if "x \<in> set cs" for x
        using 1 [OF False that, of "fst x" "snd x"] by (simp add: case_prod_beta)
      then show ?thesis by (simp add: map_idI)
    qed
    then show ?thesis using False by (simp add: Let_def)
  qed
qed

subsection \<open>Unfolding \<open>insert\<close>: its cases and its induction rule\<close>

lemma bytesCompare_eq [simp]: "bytesCompare a b = 0 \<longleftrightarrow> a = b"
  by (induction a b rule: bytesCompare.induct) auto






text \<open>The node that \<open>insert\<close> descends from, after it has made sure that the byte has
  a child; and what \<open>insert\<close> does once the call on the child has come back.\<close>

definition with_child :: "byte option \<Rightarrow> TrieNode \<Rightarrow> TrieNode" where
  "with_child c n1 = (if map_of (children n1) c = None then addChild c n1 else n1)"

definition insert_finish ::
    "hashfn \<Rightarrow> byte option \<Rightarrow> TrieNode \<Rightarrow> (error + bool) \<times> TrieNode \<Rightarrow> (error + bool) \<times> TrieNode" where
  "insert_finish H char n2 rc =
     (let n3 = set_children (AList.update char (snd rc) (children n2)) n2 in
      case fst rc of
        Inl e \<Rightarrow> (Inl e, n3)
      | Inr success \<Rightarrow>
          if success then (Inr True, updateHash H (set_items (items n3 + 1) n3))
          else (Inr False, n3))"







subsection \<open>The child made by \<open>_splitLeafNode\<close>; what \<open>insert\<close> can throw\<close>




lemma insert_finish_throws:
  "fst rc = Inl e \<Longrightarrow>
   insert_finish H c n2 rc = (Inl e, set_children (AList.update c (snd rc) (children n2)) n2)"
  by (simp add: insert_finish_def Let_def)




subsection \<open>Unfolding \<open>delete\<close> and \<open>exists\<close>; what they can throw\<close>















subsection \<open>The hash of a node after a successful \<open>insert\<close>\<close>






subsection \<open>The walk over the peer's children\<close>

text \<open>The sequence of calls of \<open>fetchMissingHashesByPrefix\<close> on a list of prefixes,
  each call starting in the state that the one before left.\<close>

fun fetchPrefixes ::
    "nat \<Rightarrow> ('w, 'ev) env \<Rightarrow> bytes list \<Rightarrow> 'w \<times> 'ev call list
       \<Rightarrow> (bytes list \<times> 'w \<times> 'ev call list) option" where
  "fetchPrefixes fuel rpc [] st = Some ([], st)"
| "fetchPrefixes fuel rpc (p # ps) st =
     (case fetchMissingHashesByPrefix fuel rpc p st of
        None \<Rightarrow> None
      | Some (ids, st') \<Rightarrow>
          (case fetchPrefixes fuel rpc ps st' of
             None \<Rightarrow> None
           | Some (ids', st'') \<Rightarrow> Some (ids @ ids', st'')))"

lemma fetchChildren_filter:
  "fetchChildren fuel rpc cs ourNode st
     = fetchPrefixes fuel rpc
         (map (\<lambda>(c, theirChild). nm_prefix theirChild)
            (filter (\<lambda>(c, theirChild). our_child_hash ourNode c \<noteq> Some (nm_hash theirChild)) cs)) st"
  by (induction cs arbitrary: st) (auto split: option.splits prod.splits)

lemma our_child_hash_differs:
  "(our_child_hash ourNode c \<noteq> Some h)
     = (case ourNode of
          None \<Rightarrow> True
        | Some ours \<Rightarrow>
            (case nm_children ours of
               None \<Rightarrow> True
             | Some ocs \<Rightarrow>
                 (case map_of ocs c of
                    None \<Rightarrow> True
                  | Some ourChild \<Rightarrow> nm_hash ourChild \<noteq> h)))"
  by (simp add: our_child_hash_def split: option.splits)

subsection \<open>Reading a number from a text\<close>

lemma hexdigit_code: "d < 10 \<Longrightarrow> (of_char (hexdigit d) :: nat) = 48 + d"
proof -
  assume "d < 10"
  then consider "d = 0" | "d = 1" | "d = 2" | "d = 3" | "d = 4" | "d = 5" | "d = 6"
    | "d = 7" | "d = 8" | "d = 9"
    by atomize_elim arith
  then show ?thesis by cases (simp_all add: hexdigit_def)
qed

















subsection \<open>The keys of a node and the invariant of the trie\<close>

text \<open>The keys below a node, in the order of \<open>getAllValues\<close>.\<close>

fun keys_of :: "TrieNode \<Rightarrow> bytes list" where
  "keys_of (TrieNode h i cs k) =
     (if cs = [] then (case k of None \<Rightarrow> [] | Some kv \<Rightarrow> [kv])
      else concat (map (\<lambda>e. keys_of (snd e)) cs))"

text \<open>The hash that \<open>_updateHash\<close> would store in a node.\<close>

definition computed_hash :: "hashfn \<Rightarrow> TrieNode \<Rightarrow> string" where
  "computed_hash H n = hash (updateHash H n)"

text \<open>
  The invariant of a node reached by the path \<open>p\<close> in a trie whose keys have \<open>L\<close>
  bytes. The cached hash is the computed one. A leaf is empty with no items or holds one
  key, which has \<open>L\<close> bytes, begins with the path and lies at depth 10 or deeper, before
  the end of the key. An inner node has no key, counts the items of its children, has
  its children in the order of the JavaScript sort with no byte twice and none under
  \<open>undefined\<close>, has at least two items from depth 10 on, and every child is a node of
  the trie, below its byte, with at least one item.
\<close>

fun trie_inv :: "hashfn \<Rightarrow> nat \<Rightarrow> bytes \<Rightarrow> TrieNode \<Rightarrow> bool" where
  "trie_inv H L p (TrieNode h i cs k) =
     (h = computed_hash H (TrieNode h i cs k)
      \<and> (if cs = [] then
            (case k of
               None \<Rightarrow> i = 0
             | Some kv \<Rightarrow> i = 1 \<and> TIMESTAMP_LENGTH \<le> length p \<and> length p < L
                          \<and> length kv = L \<and> take (length p) kv = p)
          else
            k = None
            \<and> i = sum_list (map (\<lambda>e. items (snd e)) cs)
            \<and> sorted (map entry_string cs)
            \<and> distinct (map fst cs)
            \<and> (TIMESTAMP_LENGTH \<le> length p \<longrightarrow> 2 \<le> i)
            \<and> (\<forall>e \<in> set cs. fst e \<noteq> None \<and> trie_inv H L (p @ [the (fst e)]) (snd e)
                   \<and> 0 < items (snd e))))"

declare trie_inv.simps [simp del]

lemma keys_of_leaf: "children n = [] \<Longrightarrow> keys_of n = (case key n of None \<Rightarrow> [] | Some kv \<Rightarrow> [kv])"
  by (cases n) simp

lemma keys_of_inner: "children n \<noteq> [] \<Longrightarrow> keys_of n = concat (map (\<lambda>e. keys_of (snd e)) (children n))"
  by (cases n) simp

lemma getAllValues_keys_of: "fst (getAllValues n) = keys_of n"
proof (induction n rule: getAllValues.induct)
  case (1 h i cs k)
  show ?case
  proof (cases "length cs = 0")
    case True
    then show ?thesis by simp
  next
    case False
    have "fst (getAllValues (snd e)) = keys_of (snd e)" if "e \<in> set cs" for e
      using 1 [OF False that, of "fst e" "snd e"] by simp
    then have "map (\<lambda>(c, r). fst r) (map (\<lambda>(c, child). (c, getAllValues child)) cs)
               = map (\<lambda>e. keys_of (snd e)) cs"
      by (simp add: case_prod_beta)
    then show ?thesis using False by (simp add: Let_def del: map_map)
  qed
qed

lemma computed_hash_leaf:
  "children n = [] \<Longrightarrow> computed_hash H n = toHex (H (case key n of None \<Rightarrow> [] | Some kv \<Rightarrow> kv))"
  by (simp add: computed_hash_def updateHash_def isLeaf_def node_value_def blake3Truncate160_def)

lemma computed_hash_inner:
  "children n \<noteq> [] \<Longrightarrow>
   computed_hash H n = toHex (H (concat (map (\<lambda>(c, child). fromHex (hash child)) (children n))))"
  by (simp add: computed_hash_def updateHash_def isLeaf_def)

lemma updateHash_computed: "updateHash H n = set_hash (computed_hash H n) n"
  by (simp add: computed_hash_def updateHash_def Let_def)

lemma computed_hash_cong:
  "children n = children m \<Longrightarrow> key n = key m \<Longrightarrow> computed_hash H n = computed_hash H m"
  by (simp add: computed_hash_def updateHash_def isLeaf_def node_value_def)

lemma inv_leaf:
  "children n = [] \<Longrightarrow>
   trie_inv H L p n \<longleftrightarrow>
     hash n = computed_hash H n
     \<and> (case key n of
          None \<Rightarrow> items n = 0
        | Some kv \<Rightarrow> items n = 1 \<and> TIMESTAMP_LENGTH \<le> length p \<and> length p < L
                     \<and> length kv = L \<and> take (length p) kv = p)"
  by (cases n) (auto simp: trie_inv.simps split: option.splits)

lemma inv_inner:
  "children n \<noteq> [] \<Longrightarrow>
   trie_inv H L p n \<longleftrightarrow>
     hash n = computed_hash H n
     \<and> key n = None
     \<and> items n = sum_list (map (\<lambda>e. items (snd e)) (children n))
     \<and> sorted (map entry_string (children n))
     \<and> distinct (map fst (children n))
     \<and> (TIMESTAMP_LENGTH \<le> length p \<longrightarrow> 2 \<le> items n)
     \<and> (\<forall>e \<in> set (children n). fst e \<noteq> None \<and> trie_inv H L (p @ [the (fst e)]) (snd e)
            \<and> 0 < items (snd e))"
  by (cases n) (simp add: trie_inv.simps)

lemma inv_hash: "trie_inv H L p n \<Longrightarrow> hash n = computed_hash H n"
  by (cases n) (simp add: trie_inv.simps)

subsection \<open>The order of the JavaScript sort is a linear order on bytes\<close>

definition undecimal :: "string \<Rightarrow> nat" where
  "undecimal s = foldl (\<lambda>acc c. 10 * acc + (of_char c - 48)) 0 s"

lemma undecimal_snoc: "undecimal (s @ [c]) = 10 * undecimal s + (of_char c - 48)"
  by (simp add: undecimal_def)

lemma undecimal_decimal: "undecimal (decimal n) = n"
proof (induction n rule: decimal.induct)
  case (1 n)
  show ?case
  proof (cases "n < 10")
    case True
    then show ?thesis
      by (subst decimal.simps) (simp add: undecimal_def hexdigit_code)
  next
    case False
    have "undecimal (decimal n) = 10 * undecimal (decimal (n div 10)) + (of_char (hexdigit (n mod 10)) - 48)"
      using False by (subst decimal.simps) (simp add: undecimal_snoc)
    also have "\<dots> = 10 * (n div 10) + n mod 10"
      using 1 [OF False] by (simp add: hexdigit_code)
    finally show ?thesis by simp
  qed
qed

lemma decimal_inj: "decimal m = decimal n \<Longrightarrow> m = n"
  by (metis undecimal_decimal)

lemma decimal_not_Nil: "decimal n \<noteq> []"
  by (subst decimal.simps) simp

definition js_key :: "byte option \<Rightarrow> string" where
  "js_key c = (case c of None \<Rightarrow> [] | Some b \<Rightarrow> decimal (unat b)) @ '',[object Object]''"

lemma entry_string_js_key: "entry_string e = js_key (fst e)"
  by (simp add: entry_string_def js_key_def)

lemma map_entry_string: "map entry_string cs = map js_key (map fst cs)"
  by (simp add: entry_string_js_key)

lemma inj_js_key: "inj js_key"
proof (rule injI)
  fix c d assume "js_key c = js_key d"
  then have e: "(case c of None \<Rightarrow> [] | Some b \<Rightarrow> decimal (unat b))
                = (case d of None \<Rightarrow> [] | Some b \<Rightarrow> decimal (unat b))"
    by (simp add: js_key_def)
  show "c = d"
  proof (cases c)
    case None
    then show ?thesis using e decimal_not_Nil [of "unat (the d)"] by (cases d) auto
  next
    case (Some b)
    then show ?thesis
      using e decimal_not_Nil by (cases d) (auto simp: word_unat_eq_iff dest!: decimal_inj)
  qed
qed

lemma sorted_children_unique:
  assumes "sorted (map entry_string cs)" "distinct (map fst cs)"
    and "sorted (map entry_string ds)" "distinct (map fst ds)"
    and "set (map fst cs) = set (map fst ds)"
  shows "map fst cs = map fst ds"
proof (rule map_sorted_distinct_set_unique [where f = js_key])
  show "inj_on js_key (set (map fst cs) \<union> set (map fst ds))"
    using inj_js_key by (rule inj_on_subset) simp
  show "sorted (map js_key (map fst cs))" "sorted (map js_key (map fst ds))"
    using assms(1,3) by (simp_all only: map_entry_string)
  show "distinct (map js_key (map fst cs))" "distinct (map js_key (map fst ds))"
    using assms(2,4) inj_js_key by (simp_all add: distinct_map inj_on_def inj_def del: map_map)
  show "set (map fst cs) = set (map fst ds)" by (rule assms(5))
qed

lemma sorted_js_sort: "sorted (map entry_string (js_sort cs))"
  by (simp add: js_sort_def sorted_sort_key)

lemma js_sort_sorted: "sorted (map entry_string cs) \<Longrightarrow> js_sort cs = cs"
  by (simp add: js_sort_def sort_key_id_if_sorted)

lemma distinct_fst_js_sort: "distinct (map fst (js_sort cs)) = distinct (map fst cs)"
proof -
  have "mset (map fst (js_sort cs)) = mset (map fst cs)"
    by (simp add: js_sort_def)
  then show ?thesis by (metis mset_eq_imp_distinct_iff)
qed

subsection \<open>What the invariant says about the keys\<close>

lemma child_smaller: "e \<in> set (children n) \<Longrightarrow> node_count (snd e) < node_count n"
  using node_count_child [of "fst e" "snd e" n] by simp

lemma inv_child:
  "trie_inv H L p n \<Longrightarrow> e \<in> set (children n) \<Longrightarrow>
   fst e \<noteq> None \<and> trie_inv H L (p @ [the (fst e)]) (snd e) \<and> 0 < items (snd e)"
  by (cases "children n = []") (auto simp: inv_inner)

lemma in_keys_inner:
  "children n \<noteq> [] \<Longrightarrow> k \<in> set (keys_of n) \<longleftrightarrow> (\<exists>e \<in> set (children n). k \<in> set (keys_of (snd e)))"
  by (auto simp: keys_of_inner)

lemma inv_keys_path:
  "trie_inv H L p n \<Longrightarrow> k \<in> set (keys_of n) \<Longrightarrow> length k = L \<and> take (length p) k = p \<and> length p < L"
proof (induction n arbitrary: p rule: measure_induct_rule [where f = node_count])
  case (less n)
  show ?case
  proof (cases "children n = []")
    case True
    then show ?thesis using less.prems
      by (auto simp: inv_leaf keys_of_leaf split: option.splits)
  next
    case False
    then obtain e where e: "e \<in> set (children n)" "k \<in> set (keys_of (snd e))"
      using less.prems(2) by (auto simp: in_keys_inner)
    have "trie_inv H L (p @ [the (fst e)]) (snd e)" using inv_child [OF less.prems(1) e(1)] by simp
    then have *: "length k = L" "take (length (p @ [the (fst e)])) k = p @ [the (fst e)]" "length (p @ [the (fst e)]) < L"
      using less.IH [OF child_smaller [OF e(1)] _ e(2), of "p @ [the (fst e)]"] by blast+
    have "take (length p) k = take (length p) (take (length (p @ [the (fst e)])) k)"
      by (simp add: min_def)
    also have "\<dots> = p" by (simp only: *(2)) simp
    finally show ?thesis using * by simp
  qed
qed

lemma inv_child_key_byte:
  assumes "trie_inv H L p n" "e \<in> set (children n)" "k \<in> set (keys_of (snd e))"
  shows "fst e = Some (k ! length p)"
proof -
  have w: "trie_inv H L (p @ [the (fst e)]) (snd e)" using inv_child [OF assms(1,2)] by simp
  have t: "take (length (p @ [the (fst e)])) k = p @ [the (fst e)]" and l: "length (p @ [the (fst e)]) < L" "length k = L"
    using inv_keys_path [OF w assms(3)] by auto
  have ne: "fst e \<noteq> None" using inv_child [OF assms(1,2)] by simp
  have "k ! length p = take (length (p @ [the (fst e)])) k ! length p"
    by simp
  also have "\<dots> = the (fst e)" by (simp only: t) simp
  finally show ?thesis using ne by auto
qed

lemma sum_lengths_concat:
  "sum_list (map (\<lambda>e. int (length (f e))) cs) = int (length (concat (map f cs)))"
  by (induction cs) auto

lemma inv_items_nonneg_keys: "trie_inv H L p n \<Longrightarrow> items n = int (length (keys_of n))"
proof (induction n arbitrary: p rule: measure_induct_rule [where f = node_count])
  case (less n)
  show ?case
  proof (cases "children n = []")
    case True
    then show ?thesis using less.prems
      by (auto simp: inv_leaf keys_of_leaf split: option.splits)
  next
    case False
    have "items (snd e) = int (length (keys_of (snd e)))" if "e \<in> set (children n)" for e
      using less.IH [OF child_smaller [OF that]] inv_child [OF less.prems that] by blast
    then have "sum_list (map (\<lambda>e. items (snd e)) (children n))
               = sum_list (map (\<lambda>e. int (length (keys_of (snd e)))) (children n))"
      by (simp cong: map_cong)
    also have "\<dots> = int (length (keys_of n))"
      using keys_of_inner [OF False] by (simp only: sum_lengths_concat)
    finally show ?thesis using less.prems False by (simp add: inv_inner)
  qed
qed

lemma distinct_concat_children:
  assumes "distinct (map fst cs)"
    and "\<And>e. e \<in> set cs \<Longrightarrow> distinct (f e)"
    and "\<And>e e'. e \<in> set cs \<Longrightarrow> e' \<in> set cs \<Longrightarrow> fst e \<noteq> fst e' \<Longrightarrow> set (f e) \<inter> set (f e') = {}"
  shows "distinct (concat (map f cs))"
  using assms
proof (induction cs)
  case Nil
  then show ?case by simp
next
  case (Cons a cs)
  have "set (f a) \<inter> set (f e') = {}" if "e' \<in> set cs" for e'
  proof -
    have "fst a \<noteq> fst e'" using Cons.prems(1) that by auto
    then show ?thesis using Cons.prems(3) [of a e'] that by simp
  qed
  then show ?case using Cons by auto
qed

lemma inv_keys_distinct: "trie_inv H L p n \<Longrightarrow> distinct (keys_of n)"
proof (induction n arbitrary: p rule: measure_induct_rule [where f = node_count])
  case (less n)
  show ?case
  proof (cases "children n = []")
    case True
    then show ?thesis by (auto simp: keys_of_leaf split: option.splits)
  next
    case False
    have d: "distinct (map fst (children n))" using less.prems False by (simp add: inv_inner)
    have "distinct (concat (map (\<lambda>e. keys_of (snd e)) (children n)))"
    proof (rule distinct_concat_children [OF d])
      fix e assume "e \<in> set (children n)"
      then show "distinct (keys_of (snd e))"
        using less.IH [OF child_smaller] inv_child [OF less.prems] by blast
    next
      fix e e' assume e: "e \<in> set (children n)" "e' \<in> set (children n)" "fst e \<noteq> fst e'"
      show "set (keys_of (snd e)) \<inter> set (keys_of (snd e')) = {}"
        using inv_child_key_byte [OF less.prems e(1)] inv_child_key_byte [OF less.prems e(2)] e(3)
        by fastforce
    qed
    then show ?thesis using False by (simp add: keys_of_inner)
  qed
qed

lemma inv_items_card: "trie_inv H L p n \<Longrightarrow> items n = int (card (set (keys_of n)))"
  by (simp add: inv_items_nonneg_keys inv_keys_distinct distinct_card)

lemma inv_inner_depth: "trie_inv H L p n \<Longrightarrow> children n \<noteq> [] \<Longrightarrow> Suc (length p) < L"
proof -
  assume w: "trie_inv H L p n" and ne: "children n \<noteq> []"
  then obtain e where e: "e \<in> set (children n)" by (cases "children n") auto
  have "0 < items (snd e)" and we: "trie_inv H L (p @ [the (fst e)]) (snd e)"
    using inv_child [OF w e] by auto
  then have "keys_of (snd e) \<noteq> []" using inv_items_nonneg_keys [OF we] by auto
  then obtain k where "k \<in> set (keys_of (snd e))" by (cases "keys_of (snd e)") auto
  then show ?thesis using inv_keys_path [OF we] by auto
qed

lemma inv_child_bytes:
  assumes "trie_inv H L p n" "children n \<noteq> []"
  shows "set (map fst (children n)) = (\<lambda>k. Some (k ! length p)) ` set (keys_of n)"
proof (intro equalityI subsetI)
  fix c assume "c \<in> set (map fst (children n))"
  then obtain e where e: "e \<in> set (children n)" "fst e = c" by auto
  have "0 < items (snd e)" and we: "trie_inv H L (p @ [the (fst e)]) (snd e)"
    using inv_child [OF assms(1) e(1)] by auto
  then have "keys_of (snd e) \<noteq> []" using inv_items_nonneg_keys [OF we] by auto
  then obtain k where k: "k \<in> set (keys_of (snd e))" by (cases "keys_of (snd e)") auto
  then have "k \<in> set (keys_of n)" using e(1) assms(2) by (auto simp: in_keys_inner)
  moreover have "Some (k ! length p) = c" using inv_child_key_byte [OF assms(1) e(1) k] e(2) by simp
  ultimately show "c \<in> (\<lambda>k. Some (k ! length p)) ` set (keys_of n)" by blast
next
  fix c assume "c \<in> (\<lambda>k. Some (k ! length p)) ` set (keys_of n)"
  then obtain k where k: "k \<in> set (keys_of n)" "c = Some (k ! length p)" by auto
  then obtain e where e: "e \<in> set (children n)" "k \<in> set (keys_of (snd e))"
    using assms(2) by (auto simp: in_keys_inner)
  then have "fst e = c" using inv_child_key_byte [OF assms(1) e] k(2) by simp
  then show "c \<in> set (map fst (children n))"
    using e(1) by force
qed

lemma inv_child_keys:
  assumes "trie_inv H L p n" "e \<in> set (children n)"
  shows "set (keys_of (snd e)) = {k \<in> set (keys_of n). Some (k ! length p) = fst e}"
proof (intro equalityI subsetI)
  fix k assume k: "k \<in> set (keys_of (snd e))"
  have ne: "children n \<noteq> []" using assms(2) by auto
  show "k \<in> {k \<in> set (keys_of n). Some (k ! length p) = fst e}"
    using k assms(2) inv_child_key_byte [OF assms k] ne by (auto simp: in_keys_inner)
next
  fix k assume "k \<in> {k \<in> set (keys_of n). Some (k ! length p) = fst e}"
  then have k: "k \<in> set (keys_of n)" "Some (k ! length p) = fst e" by auto
  have ne: "children n \<noteq> []" using assms(2) by auto
  obtain e' where e': "e' \<in> set (children n)" "k \<in> set (keys_of (snd e'))"
    using k(1) ne by (auto simp: in_keys_inner)
  have "fst e' = fst e" using inv_child_key_byte [OF assms(1) e'] k(2) by simp
  moreover have "distinct (map fst (children n))" using assms(1) ne by (simp add: inv_inner)
  ultimately have "e' = e" using e'(1) assms(2)
    by (metis eq_key_imp_eq_value prod.collapse)
  then show "k \<in> set (keys_of (snd e))" using e'(2) by simp
qed

subsection \<open>The trie is determined by its set of keys\<close>

lemma TrieNode_eqI:
  "hash n = hash m \<Longrightarrow> items n = items m \<Longrightarrow> children n = children m \<Longrightarrow> key n = key m \<Longrightarrow> n = m"
  by (cases n; cases m) simp

lemma inv_inner_has_key: "trie_inv H L p n \<Longrightarrow> children n \<noteq> [] \<Longrightarrow> keys_of n \<noteq> []"
proof -
  assume w: "trie_inv H L p n" and ne: "children n \<noteq> []"
  then obtain e where e: "e \<in> set (children n)" by (cases "children n") auto
  have "0 < items (snd e)" and we: "trie_inv H L (p @ [the (fst e)]) (snd e)"
    using inv_child [OF w e] by auto
  then have "keys_of (snd e) \<noteq> []" using inv_items_nonneg_keys [OF we] by auto
  then obtain k where "k \<in> set (keys_of (snd e))" by (cases "keys_of (snd e)") auto
  then have "k \<in> set (keys_of n)" using e in_keys_inner [OF ne] by blast
  then show ?thesis by auto
qed

lemma leaf_inner_differ:
  assumes "trie_inv H L p n1" "trie_inv H L p n2" "children n1 = []" "children n2 \<noteq> []"
  shows "set (keys_of n1) \<noteq> set (keys_of n2)"
proof (cases "key n1")
  case None
  then have "keys_of n1 = []" using assms(3) by (simp add: keys_of_leaf)
  then show ?thesis using inv_inner_has_key [OF assms(2,4)] by auto
next
  case (Some k)
  then have "TIMESTAMP_LENGTH \<le> length p" and k: "keys_of n1 = [k]"
    using assms(1,3) by (auto simp: inv_leaf keys_of_leaf)
  then have "2 \<le> items n2" using assms(2,4) by (simp add: inv_inner)
  then have "2 \<le> card (set (keys_of n2))" using inv_items_card [OF assms(2)] by simp
  moreover have "card (set (keys_of n1)) = 1" by (simp add: k)
  ultimately show ?thesis by force
qed

lemma trie_inv_unique:
  "trie_inv H L p n1 \<Longrightarrow> trie_inv H L p n2 \<Longrightarrow> set (keys_of n1) = set (keys_of n2) \<Longrightarrow> n1 = n2"
proof (induction n1 arbitrary: p n2 rule: measure_induct_rule [where f = node_count])
  case (less n1)
  note w1 = less.prems(1) and w2 = less.prems(2) and ks = less.prems(3)
  show ?case
  proof (cases "children n1 = []")
    case l1: True
    show ?thesis
    proof (cases "children n2 = []")
      case l2: True
      have "key n1 = key n2"
        using ks by (cases "key n1"; cases "key n2") (simp_all add: keys_of_leaf l1 l2)
      moreover from this have "items n1 = items n2"
        using w1 w2 l1 l2 by (auto simp: inv_leaf split: option.splits)
      moreover have "hash n1 = hash n2"
        using inv_hash [OF w1] inv_hash [OF w2] computed_hash_cong [of n1 n2 H] l1 l2 \<open>key n1 = key n2\<close>
        by metis
      ultimately show ?thesis using l1 l2 by (intro TrieNode_eqI) simp_all
    next
      case False
      then show ?thesis using leaf_inner_differ [OF w1 w2 l1] ks by simp
    qed
  next
    case i1: False
    show ?thesis
    proof (cases "children n2 = []")
      case True
      then show ?thesis using leaf_inner_differ [OF w2 w1 True i1] ks by simp
    next
      case i2: False
      have f: "map fst (children n1) = map fst (children n2)"
      proof (rule sorted_children_unique)
        show "sorted (map entry_string (children n1))" "distinct (map fst (children n1))"
          using w1 i1 by (simp_all add: inv_inner)
        show "sorted (map entry_string (children n2))" "distinct (map fst (children n2))"
          using w2 i2 by (simp_all add: inv_inner)
        show "set (map fst (children n1)) = set (map fst (children n2))"
          using inv_child_bytes [OF w1 i1] inv_child_bytes [OF w2 i2] ks by simp
      qed
      then have len: "length (children n1) = length (children n2)"
        by (metis length_map)
      have "children n1 ! j = children n2 ! j" if j: "j < length (children n1)" for j
      proof -
        let ?e1 = "children n1 ! j" and ?e2 = "children n2 ! j"
        have m1: "?e1 \<in> set (children n1)" and m2: "?e2 \<in> set (children n2)"
          using j len by simp_all
        have fe: "fst ?e1 = fst ?e2"
          using f j len by (metis nth_map)
        have "set (keys_of (snd ?e1)) = set (keys_of (snd ?e2))"
          using inv_child_keys [OF w1 m1] inv_child_keys [OF w2 m2] ks fe by simp
        moreover have "trie_inv H L (p @ [the (fst ?e1)]) (snd ?e1)" "trie_inv H L (p @ [the (fst ?e1)]) (snd ?e2)"
          using inv_child [OF w1 m1] inv_child [OF w2 m2] fe by simp_all
        ultimately have "snd ?e1 = snd ?e2"
          using less.IH [OF child_smaller [OF m1]] by blast
        then show ?thesis using fe by (simp add: prod_eq_iff)
      qed
      then have c: "children n1 = children n2"
        using len by (simp add: list_eq_iff_nth_eq)
      moreover have "key n1 = key n2" using w1 w2 i1 i2 by (simp add: inv_inner)
      moreover have "items n1 = items n2" using w1 w2 i1 i2 c by (simp add: inv_inner)
      moreover have "hash n1 = hash n2"
        using inv_hash [OF w1] inv_hash [OF w2] computed_hash_cong [of n1 n2 H] c \<open>key n1 = key n2\<close>
        by metis
      ultimately show ?thesis by (intro TrieNode_eqI)
    qed
  qed
qed

subsection \<open>The children map under \<open>set\<close>, \<open>delete\<close> and the sort\<close>

lemma set_update_distinct:
  "distinct (map fst cs) \<Longrightarrow> set (AList.update c v cs) = insert (c, v) {e \<in> set cs. fst e \<noteq> c}"
  by (induction cs) (auto simp: rev_image_eqI)

lemma distinct_update: "distinct (map fst (AList.update c v cs)) = distinct (map fst cs)"
  by (auto simp: AList.update_keys)

lemma map_fst_update_existing:
  "map_of cs c = Some ch \<Longrightarrow> map fst (AList.update c v cs) = map fst cs"
  by (simp add: AList.update_keys weak_map_of_SomeI domI dom_map_of_conv_image_fst [symmetric])

lemma sorted_update_existing:
  "map_of cs c = Some ch \<Longrightarrow> sorted (map entry_string cs) \<Longrightarrow> sorted (map entry_string (AList.update c v cs))"
  by (simp only: map_entry_string map_fst_update_existing)

lemma sum_children:
  "distinct (map fst cs) \<Longrightarrow> sum_list (map f cs) = sum f (set cs)"
  by (simp add: sum_list_distinct_conv_sum_set distinct_map)

lemma map_of_js_sort:
  "distinct (map fst cs) \<Longrightarrow> map_of (js_sort cs) = map_of cs"
  by (rule map_of_inject_set [THEN iffD2]) (simp_all add: distinct_fst_js_sort)

lemma map_of_member: "distinct (map fst cs) \<Longrightarrow> (c, ch) \<in> set cs \<longleftrightarrow> map_of cs c = Some ch"
  by (auto dest: map_of_SomeD)

text \<open>The children after \<open>insert\<close> has made sure that the byte has a child and has
  put the child's new state in its place.\<close>

lemma with_child_children:
  assumes "distinct (map fst (children n1))" "sorted (map entry_string (children n1))"
    and "map_of (children (with_child c n1)) c = Some child"
  shows "(map_of (children n1) c = None \<and> child = new_TrieNode) \<or> map_of (children n1) c = Some child"
    and "map_of (children n1) c \<noteq> None \<Longrightarrow> with_child c n1 = n1"
    and "sorted (map entry_string (AList.update c v (children (with_child c n1))))"
    and "distinct (map fst (AList.update c v (children (with_child c n1))))"
    and "set (AList.update c v (children (with_child c n1))) = insert (c, v) {e \<in> set (children n1). fst e \<noteq> c}"
    and "items (with_child c n1) = items n1" and "key (with_child c n1) = key n1"
proof -
  let ?cs = "children n1"
  show "map_of ?cs c \<noteq> None \<Longrightarrow> with_child c n1 = n1"
    by (auto simp: with_child_def)
  show "items (with_child c n1) = items n1" "key (with_child c n1) = key n1"
    by (simp_all add: with_child_def addChild_def)
  show "(map_of ?cs c = None \<and> child = new_TrieNode) \<or> map_of ?cs c = Some child"
  proof (cases "map_of ?cs c")
    case None
    have "map_of (js_sort (AList.update c new_TrieNode ?cs)) c = Some new_TrieNode"
      using assms(1) by (simp add: map_of_js_sort distinct_update AList.update_conv')
    then show ?thesis using None assms(3) by (simp add: with_child_def addChild_def)
  next
    case (Some a)
    then show ?thesis using assms(3) by (simp add: with_child_def)
  qed
  show "sorted (map entry_string (AList.update c v (children (with_child c n1))))"
  proof (cases "map_of ?cs c")
    case None
    have "map_of (js_sort (AList.update c new_TrieNode ?cs)) c = Some new_TrieNode"
      using assms(1) by (simp add: map_of_js_sort distinct_update AList.update_conv')
    then show ?thesis
      using None by (simp add: with_child_def addChild_def sorted_update_existing sorted_js_sort)
  next
    case (Some a)
    then show ?thesis using assms(2) by (simp add: with_child_def sorted_update_existing)
  qed
  show "distinct (map fst (AList.update c v (children (with_child c n1))))"
    using assms(1) by (simp add: with_child_def addChild_def distinct_update distinct_fst_js_sort)
  show "set (AList.update c v (children (with_child c n1))) = insert (c, v) {e \<in> set ?cs. fst e \<noteq> c}"
  proof (cases "map_of ?cs c")
    case None
    have d: "distinct (map fst (js_sort (AList.update c new_TrieNode ?cs)))"
      using assms(1) by (simp add: distinct_update distinct_fst_js_sort)
    have "set (AList.update c v (js_sort (AList.update c new_TrieNode ?cs)))
          = insert (c, v) {e \<in> set (AList.update c new_TrieNode ?cs). fst e \<noteq> c}"
      by (simp add: set_update_distinct [OF d])
    also have "\<dots> = insert (c, v) {e \<in> set ?cs. fst e \<noteq> c}"
      using assms(1) by (auto simp: set_update_distinct)
    finally show ?thesis using None by (simp add: with_child_def addChild_def)
  next
    case (Some a)
    then show ?thesis using assms(1) by (simp add: with_child_def set_update_distinct)
  qed
qed

subsection \<open>\<open>insert\<close> keeps the invariant\<close>

lemma hash_updateHash_computed: "hash (updateHash H m) = computed_hash H m"
  by (simp add: computed_hash_def)

lemma computed_hash_updateHash: "computed_hash H (updateHash H m) = computed_hash H m"
  by (rule computed_hash_cong) simp_all

lemma computed_hash_set_items: "computed_hash H (set_items i m) = computed_hash H m"
  by (rule computed_hash_cong) simp_all

lemma inv_build_leaf:
  assumes "children m = []"
    and "case key m of None \<Rightarrow> items m = 0
         | Some kv \<Rightarrow> items m = 1 \<and> TIMESTAMP_LENGTH \<le> length p \<and> length p < L
                      \<and> length kv = L \<and> take (length p) kv = p"
  shows "trie_inv H L p (updateHash H m)"
  using assms by (auto simp: inv_leaf hash_updateHash_computed computed_hash_updateHash split: option.splits)

lemma inv_build_inner:
  assumes "children m \<noteq> []" "key m = None"
    and "distinct (map fst (children m))" "sorted (map entry_string (children m))"
    and "items m = sum (\<lambda>e. items (snd e)) (set (children m))"
    and "TIMESTAMP_LENGTH \<le> length p \<longrightarrow> 2 \<le> items m"
    and "\<forall>e \<in> set (children m). fst e \<noteq> None \<and> trie_inv H L (p @ [the (fst e)]) (snd e)
           \<and> 0 < items (snd e)"
  shows "trie_inv H L p (updateHash H m)"
  using assms by (simp add: inv_inner hash_updateHash_computed computed_hash_updateHash sum_children)

lemma keys_of_new [simp]: "keys_of new_TrieNode = []"
  by (simp add: new_TrieNode_def)

lemma set_keys_inner:
  "children n \<noteq> [] \<Longrightarrow> set (keys_of n) = (\<Union>e \<in> set (children n). set (keys_of (snd e)))"
  by (simp add: keys_of_inner)

lemma inv_items_sum:
  "trie_inv H L p n \<Longrightarrow> children n \<noteq> [] \<Longrightarrow> items n = sum (\<lambda>e. items (snd e)) (set (children n))"
  by (simp add: inv_inner sum_children)

lemma take_Suc_path: "i < length k \<Longrightarrow> take i k = p \<Longrightarrow> i = length p \<Longrightarrow> take (length (p @ [k ! i])) k = p @ [k ! i]"
  by (simp add: take_Suc_conv_app_nth)

definition leaf_node :: "hashfn \<Rightarrow> bytes \<Rightarrow> TrieNode" where
  "leaf_node H k = TrieNode (toHex (H k)) 1 [] (Some k)"

lemma set_leaf_value:
  "children n = [] \<Longrightarrow> set_items i (setKeyValue H (Some k) n) = TrieNode (toHex (H k)) i [] (Some k)"
  by (cases n)
     (simp add: setKeyValue_def updateHash_def set_key_def set_items_def set_hash_def isLeaf_def
        node_value_def blake3Truncate160_def)

lemma insert_new_leaf:
  "TIMESTAMP_LENGTH \<le> i \<Longrightarrow> i < length k \<Longrightarrow> insert_new H k i = (Inr True, leaf_node H k)"
  by (simp add: insert_new_deep leaf_node_def set_leaf_value)

lemma insert_new_throws:
  "TIMESTAMP_LENGTH \<le> i \<Longrightarrow> length k \<le> i \<Longrightarrow> fst (insert_new H k i) = Inl Key_length_exceeded"
  by (simp add: insert_new_deep)

lemma js_sort_single [simp]: "js_sort [e] = [e]"
  by (simp add: js_sort_def)

lemma splitLeafNode_result:
  assumes "isLeaf n" "key n = Some k'" "splitLeafNode H i n = (None, n1)" "TIMESTAMP_LENGTH \<le> i"
  shows "Suc i < length k'" "children n1 = [(Some (k' ! i), leaf_node H k')]" "key n1 = None"
    "items n1 = items n"
proof -
  show l: "Suc i < length k'"
  proof (rule ccontr)
    assume "\<not> Suc i < length k'"
    then have "fst (insert_new H k' (i + 1)) = Inl Key_length_exceeded"
      using assms(4) by (intro insert_new_throws) simp_all
    then show False
      using assms(2,3) by (auto simp: splitLeafNode_def Let_def split: prod.splits sum.splits)
  qed
  then have n: "insert_new H k' (Suc i) = (Inr True, leaf_node H k')"
    using assms(4) by (intro insert_new_leaf) simp_all
  have b: "byte_at k' i = Some (k' ! i)" using l by (simp add: byte_at_def)
  have n1: "n1 = setKeyValue H None
                   (set_children (AList.update (Some (k' ! i)) (leaf_node H k')
                      (children (addChild (Some (k' ! i)) n))) (addChild (Some (k' ! i)) n))"
    using assms(2,3) by (simp add: splitLeafNode_def Let_def n b)
  have c: "children n = []" using assms(1) by (simp add: isLeaf_def)
  show "children n1 = [(Some (k' ! i), leaf_node H k')]" "key n1 = None" "items n1 = items n"
    by (simp_all add: n1 addChild_def c)
qed

lemma splitLeafNode_ok:
  assumes "key n = Some k'" "TIMESTAMP_LENGTH \<le> i" "Suc i < length k'"
  shows "fst (splitLeafNode H i n) = None"
  using assms by (simp add: splitLeafNode_def Let_def insert_new_leaf)

lemma inv_leaf_node:
  "TIMESTAMP_LENGTH \<le> length q \<Longrightarrow> length q < L \<Longrightarrow> length k = L \<Longrightarrow> take (length q) k = q
   \<Longrightarrow> trie_inv H L q (leaf_node H k)"
  by (simp add: leaf_node_def trie_inv.simps computed_hash_leaf)

lemma keys_leaf_node [simp]: "keys_of (leaf_node H k) = [k]" "items (leaf_node H k) = 1"
  by (simp_all add: leaf_node_def)

lemma keys_of_cong: "children n = children m \<Longrightarrow> key n = key m \<Longrightarrow> keys_of n = keys_of m"
  by (cases n; cases m) simp

lemma keys_of_updateHash [simp]: "keys_of (updateHash H m) = keys_of m"
  by (rule keys_of_cong) simp_all

lemma keys_of_set_items [simp]: "keys_of (set_items i m) = keys_of m"
  by (rule keys_of_cong) simp_all

lemma others_minus:
  assumes "distinct (map fst cs)" "map_of cs c = Some ch"
  shows "{e \<in> set cs. fst e \<noteq> c} = set cs - {(c, ch)}"
proof (intro equalityI subsetI)
  fix e assume "e \<in> {e \<in> set cs. fst e \<noteq> c}"
  then have "e \<in> set cs" "fst e \<noteq> c" by simp_all
  then have "e \<noteq> (c, ch)" by auto
  then show "e \<in> set cs - {(c, ch)}" using \<open>e \<in> set cs\<close> by simp
next
  fix e assume "e \<in> set cs - {(c, ch)}"
  then have m: "e \<in> set cs" and ne: "e \<noteq> (c, ch)" by simp_all
  have "fst e \<noteq> c"
  proof
    assume f: "fst e = c"
    have "(fst e, snd e) \<in> set cs" using m by simp
    then have "map_of cs (fst e) = Some (snd e)" using assms(1) by (simp only: map_of_is_SomeI)
    then have "snd e = ch" using assms(2) f by simp
    then show False using ne f by (cases e) simp
  qed
  then show "e \<in> {e \<in> set cs. fst e \<noteq> c}" using m by simp
qed

lemma sum_children_split:
  assumes "distinct (map fst cs)" "map_of cs c = Some ch"
  shows "sum g (set cs) = g (c, ch) + sum g {e \<in> set cs. fst e \<noteq> c}"
proof -
  have "(c, ch) \<in> set cs" using assms(2) by (rule map_of_SomeD)
  then show ?thesis
    by (simp only: others_minus [OF assms] sum.remove [OF finite_set])
qed

lemma Union_children_split:
  assumes "distinct (map fst cs)" "map_of cs c = Some ch"
  shows "(\<Union>e \<in> set cs. f e) = f (c, ch) \<union> (\<Union>e \<in> {e \<in> set cs. fst e \<noteq> c}. f e)"
proof -
  have "(c, ch) \<in> set cs" using assms(2) by (rule map_of_SomeD)
  then show ?thesis
    unfolding others_minus [OF assms] by blast
qed

lemma children_without:
  "map_of cs c = None \<Longrightarrow> {e \<in> set cs. fst e \<noteq> c} = set cs"
  by (auto simp: map_of_eq_None_iff)

lemma insert_step_inv:
  assumes d: "distinct (map fst (children n1))" and s: "sorted (map entry_string (children n1))"
    and kn: "key n1 = None"
    and ch: "\<forall>e \<in> set (children n1). fst e \<noteq> None \<and> trie_inv H L (p @ [the (fst e)]) (snd e)
               \<and> 0 < items (snd e)"
    and it: "items n1 = sum (\<lambda>e. items (snd e)) (set (children n1))"
    and dp: "TIMESTAMP_LENGTH \<le> length p \<longrightarrow> 1 \<le> items n1"
    and cb: "c = Some x"
    and mc: "map_of (children (with_child c n1)) c = Some child"
    and c': "trie_inv H L (p @ [x]) child'" "items child' = items child + 1"
    and n3: "n3 = set_children (AList.update c child' (children (with_child c n1))) (with_child c n1)"
  shows "trie_inv H L p (updateHash H (set_items (items n3 + 1) n3))"
    and "set (keys_of (updateHash H (set_items (items n3 + 1) n3)))
         = set (keys_of child') \<union> (\<Union>e \<in> {e \<in> set (children n1). fst e \<noteq> c}. set (keys_of (snd e)))"
    and "items (updateHash H (set_items (items n3 + 1) n3)) = items n1 + 1"
proof -
  let ?A = "{e \<in> set (children n1). fst e \<noteq> c}"
  let ?m = "set_items (items n3 + 1) n3"
  note wc = with_child_children [OF d s mc]
  have cs3: "set (children ?m) = insert (c, child') ?A"
    using wc(5) [of child'] by (simp add: n3)
  have ne: "children ?m \<noteq> []" using cs3 by auto
  have fin: "finite ?A" by simp
  have notin: "(c, child') \<notin> ?A" by simp
  have child_items: "0 \<le> items child"
    using wc(1) ch by (auto dest!: map_of_SomeD)
  have sumA: "items n1 = items child + sum (\<lambda>e. items (snd e)) ?A"
  proof (cases "map_of (children n1) c")
    case None
    then have "child = new_TrieNode" using wc(1) by simp
    then show ?thesis using it children_without [OF None] by simp
  next
    case (Some a)
    then have a: "a = child" using wc(1) by simp
    have "sum (\<lambda>e. items (snd e)) (set (children n1)) = items child + sum (\<lambda>e. items (snd e)) ?A"
      using sum_children_split [OF d Some, of "\<lambda>e. items (snd e)"] a by simp
    then show ?thesis using it by simp
  qed
  have items_m: "items ?m = items n1 + 1"
    by (simp add: n3 wc(6))
  show "items (updateHash H ?m) = items n1 + 1" using items_m by simp
  have sum_m: "sum (\<lambda>e. items (snd e)) (set (children ?m)) = items child' + sum (\<lambda>e. items (snd e)) ?A"
    using cs3 fin notin by simp
  show "trie_inv H L p (updateHash H ?m)"
  proof (rule inv_build_inner [OF ne])
    show "key ?m = None" by (simp add: n3 wc(7) kn)
    show "distinct (map fst (children ?m))" using wc(4) [of child'] by (simp add: n3)
    show "sorted (map entry_string (children ?m))" using wc(3) [of child'] by (simp add: n3)
    show "items ?m = sum (\<lambda>e. items (snd e)) (set (children ?m))"
      using items_m sum_m sumA c'(2) by simp
    show "TIMESTAMP_LENGTH \<le> length p \<longrightarrow> 2 \<le> items ?m"
      using items_m dp by auto
    show "\<forall>e \<in> set (children ?m). fst e \<noteq> None \<and> trie_inv H L (p @ [the (fst e)]) (snd e)
            \<and> 0 < items (snd e)"
      using cs3 ch c' child_items cb by auto
  qed
  have "children (updateHash H ?m) \<noteq> []" using ne by simp
  from set_keys_inner [OF this]
  have "set (keys_of (updateHash H ?m)) = (\<Union>e \<in> set (children ?m). set (keys_of (snd e)))"
    by (simp only: updateHash_fields)
  then show "set (keys_of (updateHash H ?m)) = set (keys_of child') \<union> (\<Union>e \<in> ?A. set (keys_of (snd e)))"
    by (simp only: cs3) simp
qed

section \<open>Example data\<close>

text \<open>
  A stand-in for BLAKE3-160 with which the examples are computed: the first twenty bytes
  of the message, padded with zeros. The keys are SyncIds of 36 bytes: the ten digits of the
  timestamp 1665182332, the family prefix, a fid of four bytes, the set postfix and a
  hash of twenty bytes. \<open>key_fid9\<close> and \<open>key_fid10\<close> differ in the fid;
  \<open>key_fid10_b\<close> differs from \<open>key_fid10\<close> in the last byte only.
\<close>

definition toy_blake3 :: hashfn where
  "toy_blake3 m = take 20 (m @ replicate 20 0)"

definition ts_1665182332 :: bytes where
  "ts_1665182332 = [49, 54, 54, 53, 49, 56, 50, 51, 51, 50]"

definition key_fid9 :: bytes where
  "key_fid9 = ts_1665182332 @ [1, 0, 0, 0, 9, 1] @ replicate 20 7"

definition key_fid10 :: bytes where
  "key_fid10 = ts_1665182332 @ [1, 0, 0, 0, 10, 1] @ replicate 20 7"










text \<open>
  A peer and a store for the examples, over a world without state: the peer knows the
  given signer messages, every merge of a signer message succeeds, and the merge of any
  other message fails with the given error.
\<close>

definition example_rpc :: "Message list \<Rightarrow> HubError \<Rightarrow> (unit, unit) env" where
  "example_rpc signers failure =
     \<lparr>getAllSyncIdsByPrefix = (\<lambda>p w. (Inr [key_fid9], w)),
      getSyncMetadataByPrefix = (\<lambda>p w. (Inr (TrieNodeMetadataResponse p 1 ''aa'' []), w)),
      getIdRegistryEvent = (\<lambda>fid w. (Inr (), w)),
      getAllSignerMessagesByFid = (\<lambda>fid w. (Inr signers, w)),
      mergeIdRegistryEvent = (\<lambda>e w. (Inr (), w)),
      mergeMessages = (\<lambda>ms w. (map (\<lambda>m. Inr ()) ms, w)),
      mergeMessage = (\<lambda>m w. (Inl failure, w)),
      getTrieNodeMetadata = (\<lambda>p w. None)\<rparr>"

definition invalid_signer :: HubError where
  "invalid_signer = HubError ''bad_request.validation_failure'' ''invalid signer''"

definition cast_message :: Message where
  "cast_message = Message (Some (MessageData 1 9 1665182332)) (replicate 20 7)"

definition signer_message :: Message where
  "signer_message = Message (Some (MessageData 9 9 1665182000)) (replicate 20 8)"

text \<open>
  A node of the peer with three messages, and one with sixty messages and the children
  0, 1 and 2 under the first nine digits of the timestamp; our node of the same prefix
  has the child 0 with the peer's hash, the child 1 with another hash, and no child 2.
\<close>

definition small_node :: NodeMetadata where
  "small_node = NodeMetadata ts_1665182332 3 ''aa'' (Some [])"

definition their_children :: "(byte \<times> NodeMetadata) list" where
  "their_children =
     [(48, NodeMetadata (take 9 ts_1665182332 @ [48]) 20 ''c0'' None),
      (49, NodeMetadata (take 9 ts_1665182332 @ [49]) 20 ''c1'' None),
      (50, NodeMetadata ts_1665182332 20 ''c2'' None)]"

definition large_node :: NodeMetadata where
  "large_node = NodeMetadata (take 9 ts_1665182332) 60 ''bb'' (Some their_children)"

definition our_node :: NodeMetadata where
  "our_node =
     NodeMetadata (take 9 ts_1665182332) 25 ''dd''
       (Some [(48, NodeMetadata (take 9 ts_1665182332 @ [48]) 20 ''c0'' None),
              (49, NodeMetadata (take 9 ts_1665182332 @ [49]) 5 ''e1'' None)])"

text \<open>The trie after \<open>insert(key_fid9)\<close> and \<open>insert(key_fid10)\<close> on a new root, and
  its node at the first fourteen bytes of the keys, below which the two keys part.\<close>

definition trie_fid9_fid10 :: TrieNode where
  "trie_fid9_fid10 =
     snd (insert_node toy_blake3 key_fid10 0 (snd (insert_node toy_blake3 key_fid9 0 new_TrieNode)))"

definition fid_node :: TrieNode where
  "fid_node =
     (case fst (getNode (take 14 key_fid9) trie_fid9_fid10) of
        Some n \<Rightarrow> n
      | None \<Rightarrow> new_TrieNode)"

section \<open>The claims\<close>




text \<open>
  C10. \<open>exists\<close>, \<open>getSnapshot\<close>, \<open>getNode\<close> and \<open>getAllValues\<close> hand back the node
  they were called on unchanged, for every key or prefix, index and node: the hash, the
  item count and the whole structure below are the same after the call.
\<close>

theorem reads_leave_trie_unchanged:
  "snd (exists_node k i n) = n
   \<and> snd (getSnapshot H p i n) = n
   \<and> snd (getNode p n) = n
   \<and> snd (getAllValues n) = n"
  by (simp add: exists_node_frame getSnapshot_frame getNode_frame getAllValues_frame)




text \<open>
  C6. When the peer's node has at most 50 messages, \<open>fetchMissingHashesByNode\<close> makes
  the one call \<open>getAllSyncIdsByPrefix\<close> on the node's prefix and returns its ids (none
  when the call fails). Otherwise it calls \<open>fetchMissingHashesByPrefix\<close>, in the
  order of the peer's map, on the prefixes of exactly those children of the peer for
  which we have no node, our node has no children, our node has no child of that byte,
  or our child of that byte has another hash than the peer's; a peer's node without
  children gives nothing.
\<close>

theorem fetchMissingHashesByNode_cases:
  "(nm_numMessages theirNode \<le> 50 \<longrightarrow>
      fetchMissingHashesByNode (Suc fuel) rpc theirNode ourNode (w, log)
        = Some ((case fst (getAllSyncIdsByPrefix rpc (nm_prefix theirNode) w) of
                   Inr ids \<Rightarrow> ids | Inl err \<Rightarrow> []),
                snd (getAllSyncIdsByPrefix rpc (nm_prefix theirNode) w),
                log @ [GetAllSyncIdsByPrefix (nm_prefix theirNode)]))
   \<and> (nm_numMessages theirNode > 50 \<and> nm_children theirNode = Some cs \<longrightarrow>
      fetchMissingHashesByNode (Suc fuel) rpc theirNode ourNode (w, log)
        = fetchPrefixes fuel rpc
            (map (\<lambda>(c, theirChild). nm_prefix theirChild)
               (filter
                  (\<lambda>(c, theirChild).
                     case ourNode of
                       None \<Rightarrow> True
                     | Some ours \<Rightarrow>
                         (case nm_children ours of
                            None \<Rightarrow> True
                          | Some ourChildren \<Rightarrow>
                              (case map_of ourChildren c of
                                 None \<Rightarrow> True
                               | Some ourChild \<Rightarrow> nm_hash ourChild \<noteq> nm_hash theirChild)))
                  cs))
            (w, log))
   \<and> (nm_numMessages theirNode > 50 \<and> nm_children theirNode = None \<longrightarrow>
      fetchMissingHashesByNode (Suc fuel) rpc theirNode ourNode (w, log) = Some ([], w, log))"
proof (intro conjI impI)
  show "fetchMissingHashesByNode (Suc fuel) rpc theirNode ourNode (w, log)
        = Some ((case fst (getAllSyncIdsByPrefix rpc (nm_prefix theirNode) w) of
                   Inr ids \<Rightarrow> ids | Inl err \<Rightarrow> []),
                snd (getAllSyncIdsByPrefix rpc (nm_prefix theirNode) w),
                log @ [GetAllSyncIdsByPrefix (nm_prefix theirNode)])"
    if "nm_numMessages theirNode \<le> 50"
    using that by (simp add: HASHES_PER_FETCH_def split: prod.splits)
  show "fetchMissingHashesByNode (Suc fuel) rpc theirNode ourNode (w, log)
        = fetchPrefixes fuel rpc
            (map (\<lambda>(c, theirChild). nm_prefix theirChild)
               (filter
                  (\<lambda>(c, theirChild).
                     case ourNode of
                       None \<Rightarrow> True
                     | Some ours \<Rightarrow>
                         (case nm_children ours of
                            None \<Rightarrow> True
                          | Some ourChildren \<Rightarrow>
                              (case map_of ourChildren c of
                                 None \<Rightarrow> True
                               | Some ourChild \<Rightarrow> nm_hash ourChild \<noteq> nm_hash theirChild)))
                  cs))
            (w, log)"
    if "nm_numMessages theirNode > 50 \<and> nm_children theirNode = Some cs"
    using that
    by (simp add: HASHES_PER_FETCH_def fetchChildren_filter our_child_hash_differs)
  show "fetchMissingHashesByNode (Suc fuel) rpc theirNode ourNode (w, log) = Some ([], w, log)"
    if "nm_numMessages theirNode > 50 \<and> nm_children theirNode = None"
    using that by (simp add: HASHES_PER_FETCH_def)
qed

theorem fetchMissingHashesByNode_cases_witness:
  "nm_numMessages small_node \<le> 50
   \<and> fetchMissingHashesByNode (Suc 0) (example_rpc [] invalid_signer) small_node (Some our_node) ((), [])
       = Some ([key_fid9], (), [GetAllSyncIdsByPrefix ts_1665182332])
   \<and> nm_numMessages large_node > 50 \<and> nm_children large_node = Some their_children
   \<and> fetchMissingHashesByNode (Suc (Suc (Suc 0))) (example_rpc [] invalid_signer) large_node
         (Some our_node) ((), [])
       = Some ([key_fid9, key_fid9], (),
               [GetSyncMetadataByPrefix (take 9 ts_1665182332 @ [49]),
                GetAllSyncIdsByPrefix (take 9 ts_1665182332 @ [49]),
                GetSyncMetadataByPrefix ts_1665182332,
                GetAllSyncIdsByPrefix ts_1665182332])
   \<and> nm_numMessages (NodeMetadata [] 51 ''ee'' None) > 50
   \<and> fetchMissingHashesByNode (Suc 0) (example_rpc [] invalid_signer)
         (NodeMetadata [] 51 ''ee'' None) (Some our_node) ((), [])
       = Some ([], (), [])"
proof -
  have small: "nm_numMessages small_node \<le> 50" and large: "nm_numMessages large_node > 50"
    and cs: "nm_children large_node = Some their_children"
    and none: "nm_numMessages (NodeMetadata [] 51 ''ee'' None) > 50"
      "nm_children (NodeMetadata [] 51 ''ee'' None) = None"
    by (simp_all add: small_node_def large_node_def)
  have a: "fetchMissingHashesByNode (Suc 0) (example_rpc [] invalid_signer) small_node (Some our_node) ((), [])
       = Some ([key_fid9], (), [GetAllSyncIdsByPrefix ts_1665182332])"
    using fetchMissingHashesByNode_cases
            [where theirNode = small_node and fuel = 0 and rpc = "example_rpc [] invalid_signer"
               and ourNode = "Some our_node" and w = "()" and log = "[]"] small
    by (simp add: example_rpc_def small_node_def)
  have b: "fetchMissingHashesByNode (Suc (Suc (Suc 0))) (example_rpc [] invalid_signer) large_node
         (Some our_node) ((), [])
       = Some ([key_fid9, key_fid9], (),
               [GetSyncMetadataByPrefix (take 9 ts_1665182332 @ [49]),
                GetAllSyncIdsByPrefix (take 9 ts_1665182332 @ [49]),
                GetSyncMetadataByPrefix ts_1665182332,
                GetAllSyncIdsByPrefix ts_1665182332])"
    using fetchMissingHashesByNode_cases
            [where theirNode = large_node and cs = their_children
               and fuel = "Suc (Suc 0)" and rpc = "example_rpc [] invalid_signer"
               and ourNode = "Some our_node" and w = "()" and log = "[]"] large cs
    by (simp add: their_children_def our_node_def example_rpc_def fromNodeMetadataResponse_def
          HASHES_PER_FETCH_def)
  have c: "fetchMissingHashesByNode (Suc 0) (example_rpc [] invalid_signer)
         (NodeMetadata [] 51 ''ee'' None) (Some our_node) ((), [])
       = Some ([], (), [])"
    using fetchMissingHashesByNode_cases
            [where theirNode = "NodeMetadata [] 51 ''ee'' None" and fuel = 0
               and rpc = "example_rpc [] invalid_signer"
               and ourNode = "Some our_node" and w = "()" and log = "[]"] none
    by simp
  show ?thesis using small large cs none(1) a b c by simp
qed

text \<open>
  C8, as the code has it. For a message with a fid, \<open>syncUserAndRetryMessage\<close> returns
  \<open>unavailable.network_failure\<close> when the peer fails to deliver the fid's ID registry
  event and \<open>unavailable.storage_failure\<close> when the local merge of that event fails.
  When the signer messages were fetched and at least one of them merged, it merges the
  original message once more, as the last call it makes, and returns ok when that merge
  succeeded; when it failed, the error returned is \<open>unavailable.storage_failure\<close> with
  the message of the merge's error.
\<close>

theorem syncUserAndRetryMessage_results:
  assumes "msg_data msg = Some d" and "md_fid d \<noteq> 0"
  shows
    "(isErr (fst (getIdRegistryEvent rpc (md_fid d) w)) \<longrightarrow>
        fst (syncUserAndRetryMessage rpc msg (w, log))
          = Inl (HubError ''unavailable.network_failure'' ''Failed to fetch custody event''))
     \<and> (\<forall>ev w1. getIdRegistryEvent rpc (md_fid d) w = (Inr ev, w1)
            \<and> isErr (fst (mergeIdRegistryEvent rpc ev w1)) \<longrightarrow>
        fst (syncUserAndRetryMessage rpc msg (w, log))
          = Inl (HubError ''unavailable.storage_failure'' ''Failed to merge custody event''))
     \<and> (\<forall>ev w1 u w2 msgs w3 results w4 retry w5.
          getIdRegistryEvent rpc (md_fid d) w = (Inr ev, w1)
          \<and> mergeIdRegistryEvent rpc ev w1 = (Inr u, w2)
          \<and> getAllSignerMessagesByFid rpc (md_fid d) w2 = (Inr msgs, w3)
          \<and> mergeMessages rpc msgs w3 = (results, w4)
          \<and> (\<exists>r \<in> set results. \<not> isErr r)
          \<and> mergeMessage rpc msg w4 = (retry, w5) \<longrightarrow>
        syncUserAndRetryMessage rpc msg (w, log)
          = ((case retry of
                Inl e \<Rightarrow> Inl (HubError ''unavailable.storage_failure'' (message e))
              | Inr ok \<Rightarrow> Inr ok),
             w5,
             log @ [GetIdRegistryEvent (md_fid d), MergeIdRegistryEvent ev,
                    GetAllSignerMessagesByFid (md_fid d), MergeMessages msgs, MergeMessage msg]))"
proof (intro conjI allI impI)
  show "fst (syncUserAndRetryMessage rpc msg (w, log))
          = Inl (HubError ''unavailable.network_failure'' ''Failed to fetch custody event'')"
    if "isErr (fst (getIdRegistryEvent rpc (md_fid d) w))"
    using that assms
    by (auto simp: syncUserAndRetryMessage_def isErr_def Let_def split: prod.splits sum.splits)
next
  fix ev w1
  assume "getIdRegistryEvent rpc (md_fid d) w = (Inr ev, w1)
            \<and> isErr (fst (mergeIdRegistryEvent rpc ev w1))"
  then show "fst (syncUserAndRetryMessage rpc msg (w, log))
          = Inl (HubError ''unavailable.storage_failure'' ''Failed to merge custody event'')"
    using assms
    by (auto simp: syncUserAndRetryMessage_def Let_def split: prod.splits sum.splits)
next
  fix ev w1 u w2 msgs w3 results w4 retry w5
  assume a: "getIdRegistryEvent rpc (md_fid d) w = (Inr ev, w1)
          \<and> mergeIdRegistryEvent rpc ev w1 = (Inr u, w2)
          \<and> getAllSignerMessagesByFid rpc (md_fid d) w2 = (Inr msgs, w3)
          \<and> mergeMessages rpc msgs w3 = (results, w4)
          \<and> (\<exists>r \<in> set results. \<not> isErr r)
          \<and> mergeMessage rpc msg w4 = (retry, w5)"
  then have "\<not> list_all isErr results"
    by (auto simp: list_all_iff)
  then show "syncUserAndRetryMessage rpc msg (w, log)
          = ((case retry of
                Inl e \<Rightarrow> Inl (HubError ''unavailable.storage_failure'' (message e))
              | Inr ok \<Rightarrow> Inr ok),
             w5,
             log @ [GetIdRegistryEvent (md_fid d), MergeIdRegistryEvent ev,
                    GetAllSignerMessagesByFid (md_fid d), MergeMessages msgs, MergeMessage msg])"
    using assms a
    by (simp add: syncUserAndRetryMessage_def Let_def isErr_def HubError_from_def split: sum.splits)
qed

theorem syncUserAndRetryMessage_results_witness:
  "msg_data cast_message = Some (MessageData 1 9 1665182332)
   \<and> md_fid (MessageData 1 9 1665182332) \<noteq> 0
   \<and> syncUserAndRetryMessage (example_rpc [signer_message] invalid_signer) cast_message ((), [])
       = (Inl (HubError ''unavailable.storage_failure'' ''invalid signer''), (),
          [GetIdRegistryEvent 9, MergeIdRegistryEvent (), GetAllSignerMessagesByFid 9,
           MergeMessages [signer_message], MergeMessage cast_message])"
proof -
  have d: "msg_data cast_message = Some (MessageData 1 9 1665182332)"
    and f: "md_fid (MessageData 1 9 1665182332) \<noteq> 0"
    by (simp_all add: cast_message_def)
  show ?thesis
    using syncUserAndRetryMessage_results
            [OF d f, where rpc = "example_rpc [signer_message] invalid_signer" and w = "()" and log = "[]"]
          d f
    by (simp add: example_rpc_def isErr_def invalid_signer_def)
qed

text \<open>
  C8 as the spec states it fails in its last part: the retry below fails with
  \<open>bad_request.validation_failure\<close>, and what \<open>syncUserAndRetryMessage\<close> returns is
  not that result but an \<open>unavailable.storage_failure\<close>.
\<close>

theorem retry_result_is_rewritten:
  "fst (mergeMessage (example_rpc [signer_message] invalid_signer) cast_message ())
     = Inl (HubError ''bad_request.validation_failure'' ''invalid signer'')
   \<and> fst (syncUserAndRetryMessage (example_rpc [signer_message] invalid_signer) cast_message ((), []))
     = Inl (HubError ''unavailable.storage_failure'' ''invalid signer'')
   \<and> fst (syncUserAndRetryMessage (example_rpc [signer_message] invalid_signer) cast_message ((), []))
     \<noteq> fst (mergeMessage (example_rpc [signer_message] invalid_signer) cast_message ())"
  by (simp add: syncUserAndRetryMessage_def example_rpc_def cast_message_def invalid_signer_def
        isErr_def HubError_from_def Let_def)

text \<open>
  C9. When the ID registry event was fetched and merged, the peer answers the request
  for the signer messages with an empty list and the store returns one result for each
  message it is given, \<open>syncUserAndRetryMessage\<close> returns
  \<open>unavailable.storage_failure\<close>, and the original message is not merged again: the
  calls it made end with the merge of the empty list.
\<close>

theorem no_signers_no_retry:
  assumes "msg_data msg = Some d" and "md_fid d \<noteq> 0"
    and "getIdRegistryEvent rpc (md_fid d) w = (Inr ev, w1)"
    and "mergeIdRegistryEvent rpc ev w1 = (Inr u, w2)"
    and "getAllSignerMessagesByFid rpc (md_fid d) w2 = (Inr [], w3)"
    and "length (fst (mergeMessages rpc [] w3)) = length ([] :: Message list)"
  shows "syncUserAndRetryMessage rpc msg (w, log)
           = (Inl (HubError ''unavailable.storage_failure'' ''Failed to merge signer messages''),
              snd (mergeMessages rpc [] w3),
              log @ [GetIdRegistryEvent (md_fid d), MergeIdRegistryEvent ev,
                     GetAllSignerMessagesByFid (md_fid d), MergeMessages []])
         \<and> MergeMessage msg \<notin> set [GetIdRegistryEvent (md_fid d), MergeIdRegistryEvent ev,
                     GetAllSignerMessagesByFid (md_fid d), MergeMessages []]"
  using assms
  by (auto simp: syncUserAndRetryMessage_def Let_def isErr_def split: prod.splits sum.splits)

theorem no_signers_no_retry_witness:
  "syncUserAndRetryMessage (example_rpc [] invalid_signer) cast_message ((), [])
     = (Inl (HubError ''unavailable.storage_failure'' ''Failed to merge signer messages''), (),
        [GetIdRegistryEvent 9, MergeIdRegistryEvent (), GetAllSignerMessagesByFid 9, MergeMessages []])"
proof -
  have d: "msg_data cast_message = Some (MessageData 1 9 1665182332)"
    and f: "md_fid (MessageData 1 9 1665182332) \<noteq> 0"
    by (simp_all add: cast_message_def)
  have g: "getIdRegistryEvent (example_rpc [] invalid_signer) (md_fid (MessageData 1 9 1665182332)) () = (Inr (), ())"
    and m: "mergeIdRegistryEvent (example_rpc [] invalid_signer) () () = (Inr (), ())"
    and s: "getAllSignerMessagesByFid (example_rpc [] invalid_signer) (md_fid (MessageData 1 9 1665182332)) () = (Inr [], ())"
    and r: "length (fst (mergeMessages (example_rpc [] invalid_signer) [] ())) = length ([] :: Message list)"
    by (simp_all add: example_rpc_def)
  show ?thesis
    using no_signers_no_retry [OF d f g m s r, of "[]"]
    by (simp add: example_rpc_def)
qed

text \<open>
  C1 fails in the code. After \<open>insert(key_fid9)\<close> and \<open>insert(key_fid10)\<close>, which
  both succeed, the node at the first fourteen bytes of the keys has the children 9 and
  10, and its map holds them in the order 10, 9: \<open>sort()\<close> without a comparator
  compares the entries as strings, and \<open>10,[object Object]\<close> is before
  \<open>9,[object Object]\<close>. The hash of the node is the hash of the digest of child 10
  followed by the digest of child 9, which is not the hash in ascending order of the
  bytes.
\<close>

theorem children_not_in_byte_order:
  "fst (insert_node toy_blake3 key_fid9 0 new_TrieNode) = Inr True
   \<and> fst (insert_node toy_blake3 key_fid10 0 (snd (insert_node toy_blake3 key_fid9 0 new_TrieNode)))
       = Inr True
   \<and> fst (getNode (take 14 key_fid9) trie_fid9_fid10) = Some fid_node
   \<and> map fst (children fid_node) = [Some 10, Some 9]
   \<and> (\<exists>child9 child10.
         map_of (children fid_node) (Some 9) = Some child9
         \<and> map_of (children fid_node) (Some 10) = Some child10
         \<and> hash fid_node = toHex (toy_blake3 (fromHex (hash child10) @ fromHex (hash child9)))
         \<and> hash fid_node \<noteq> toHex (toy_blake3 (fromHex (hash child9) @ fromHex (hash child10))))"
proof -
  have a: "fst (insert_node toy_blake3 key_fid9 0 new_TrieNode) = Inr True
     \<and> fst (insert_node toy_blake3 key_fid10 0 (snd (insert_node toy_blake3 key_fid9 0 new_TrieNode)))
         = Inr True
     \<and> fst (getNode (take 14 key_fid9) trie_fid9_fid10) = Some fid_node
     \<and> map fst (children fid_node) = [Some 10, Some 9]"
    by code_simp
  have b: "(case (map_of (children fid_node) (Some 9), map_of (children fid_node) (Some 10)) of
              (Some child9, Some child10) \<Rightarrow>
                hash fid_node = toHex (toy_blake3 (fromHex (hash child10) @ fromHex (hash child9)))
                \<and> hash fid_node \<noteq> toHex (toy_blake3 (fromHex (hash child9) @ fromHex (hash child10)))
            | _ \<Rightarrow> False)"
    by code_simp
  from b have "\<exists>child9 child10.
         map_of (children fid_node) (Some 9) = Some child9
         \<and> map_of (children fid_node) (Some 10) = Some child10
         \<and> hash fid_node = toHex (toy_blake3 (fromHex (hash child10) @ fromHex (hash child9)))
         \<and> hash fid_node \<noteq> toHex (toy_blake3 (fromHex (hash child9) @ fromHex (hash child10)))"
    by (auto split: option.splits)
  with a show ?thesis by blast
qed



end
